theory Spec2Isabelle
  imports Main
begin

section \<open>Strings as the handlers use them\<close>

text \<open>
  Strings are lists of 8-bit characters. The three string operations the handlers of
  \<^verbatim>\<open>extension.ts\<close> rely on are \<^verbatim>\<open>String.prototype.trim\<close>, \<^verbatim>\<open>split('\n')\<close> and
  \<^verbatim>\<open>startsWith\<close>.
\<close>

definition newline :: char where
  "newline = CHR 0x0A"

text \<open>White space and line terminators removed by \<^verbatim>\<open>trim\<close>, within the 8-bit range:
  TAB, LF, VT, FF, CR, SPACE and NBSP.\<close>

definition isWhiteSpace :: "char \<Rightarrow> bool" where
  "isWhiteSpace c \<longleftrightarrow>
     c = CHR 0x09 \<or> c = CHR 0x0A \<or> c = CHR 0x0B \<or> c = CHR 0x0C \<or> c = CHR 0x0D \<or>
     c = CHR 0x20 \<or> c = CHR 0xA0"

definition trim :: "string \<Rightarrow> string" where
  "trim s = rev (dropWhile isWhiteSpace (rev (dropWhile isWhiteSpace s)))"

text \<open>\<^verbatim>\<open>s.split(sep)\<close> for a one-character separator: the pieces between separators, so the
  result always has one element more than there are separators (the empty string gives
  one empty piece).\<close>

fun split_acc :: "char \<Rightarrow> string \<Rightarrow> string \<Rightarrow> string list" where
  "split_acc sep acc [] = [rev acc]"
| "split_acc sep acc (c # cs) =
     (if c = sep then rev acc # split_acc sep [] cs else split_acc sep (c # acc) cs)"

definition split :: "string \<Rightarrow> char \<Rightarrow> string list" where
  "split s sep = split_acc sep [] s"

definition startsWith :: "string \<Rightarrow> string \<Rightarrow> bool" where
  "startsWith line p \<longleftrightarrow> take (length p) line = p"

section \<open>The version store\<close>

text \<open>
  The rows of the two tables, as declared by \<^verbatim>\<open>FileRecord\<close> and \<^verbatim>\<open>VersionRecord\<close> in
  \<^verbatim>\<open>db/schema.ts\<close>. The field \<^verbatim>\<open>id\<close> of each is suffixed, since \<open>id\<close> is the identity
  function of HOL.
\<close>

record FileRecord =
  id_file :: nat
  file_path :: string
  current_version_id :: "nat option"

record VersionRecord =
  id_version :: nat
  file_id :: nat
  content :: string
  timestamp :: string
  version_number :: nat
  label :: "string option"

text \<open>
  The database: the rows of \<^verbatim>\<open>files\<close> and \<^verbatim>\<open>versions\<close> in insertion order, and for each
  table the largest key handed out so far (both keys are \<^verbatim>\<open>AUTOINCREMENT\<close>, so a key is
  never used twice).
\<close>

record store =
  file_rows :: "FileRecord list"
  version_rows :: "VersionRecord list"
  seq_files :: nat
  seq_versions :: nat

datatype error = NotFoundError | ConflictError

definition versions_of :: "store \<Rightarrow> nat \<Rightarrow> VersionRecord list" where
  "versions_of s fileId = filter (\<lambda>v. file_id v = fileId) (version_rows s)"

text \<open>
  Modelled from the spec: the class \<^verbatim>\<open>FileVersionDB\<close> (\<^verbatim>\<open>db/index.ts\<close>) is not among the
  sources; only its callers are. Its operations follow section 4.1 of the specification.

  \<^verbatim>\<open>getFile(path)\<close>: the File of that path, if any.
\<close>

definition getFile :: "store \<Rightarrow> string \<Rightarrow> FileRecord option" where
  "getFile s p = find (\<lambda>f. file_path f = p) (file_rows s)"

text \<open>Modelled from the spec: \<^verbatim>\<open>getFileById(id)\<close> of the absent \<^verbatim>\<open>FileVersionDB\<close>.\<close>

definition getFileById :: "store \<Rightarrow> nat \<Rightarrow> FileRecord option" where
  "getFileById s i = find (\<lambda>f. id_file f = i) (file_rows s)"

text \<open>Modelled from the spec: \<^verbatim>\<open>getAllFiles()\<close> of the absent \<^verbatim>\<open>FileVersionDB\<close>, an ordered
  sequence of the Files.\<close>

definition getAllFiles :: "store \<Rightarrow> FileRecord list" where
  "getAllFiles s = file_rows s"

text \<open>Modelled from the spec: \<^verbatim>\<open>createFile(path)\<close> of the absent \<^verbatim>\<open>FileVersionDB\<close>. It fails
  with \<open>ConflictError\<close> if the path exists; otherwise it inserts a File with a null
  current-version pointer.\<close>

definition createFile :: "store \<Rightarrow> string \<Rightarrow> error + FileRecord \<times> store" where
  "createFile s p =
     (case getFile s p of
        Some _ \<Rightarrow> Inl ConflictError
      | None \<Rightarrow>
          let f = \<lparr>id_file = Suc (seq_files s), file_path = p, current_version_id = None\<rparr>
          in Inr (f, s\<lparr>file_rows := file_rows s @ [f], seq_files := Suc (seq_files s)\<rparr>))"

text \<open>Modelled from the spec: \<^verbatim>\<open>getFileVersions(fileId, limit?)\<close> of the absent
  \<^verbatim>\<open>FileVersionDB\<close>: the Versions of the File, newest first by version number descending;
  the limit caps the length of the result.\<close>

definition getFileVersions :: "store \<Rightarrow> nat \<Rightarrow> nat option \<Rightarrow> VersionRecord list" where
  "getFileVersions s fileId limit =
     (let vs = rev (sort_key version_number (versions_of s fileId))
      in case limit of None \<Rightarrow> vs | Some n \<Rightarrow> take n vs)"

text \<open>Modelled from the spec: \<^verbatim>\<open>createVersion(fileId, content, label?)\<close> of the absent
  \<^verbatim>\<open>FileVersionDB\<close>. The version number is the largest existing one of the File plus one,
  or 1; the timestamp is the current time, which the model takes as an argument; the
  owning File's pointer is set to the new Version. It fails with \<open>NotFoundError\<close> if
  the File does not exist.\<close>

definition createVersion ::
  "string \<Rightarrow> store \<Rightarrow> nat \<Rightarrow> string \<Rightarrow> string option \<Rightarrow> error + VersionRecord \<times> store" where
  "createVersion ts s fileId c lbl =
     (case getFileById s fileId of
        None \<Rightarrow> Inl NotFoundError
      | Some _ \<Rightarrow>
          let v = \<lparr>id_version = Suc (seq_versions s), file_id = fileId, content = c,
                   timestamp = ts,
                   version_number = Suc (foldr max (map version_number (versions_of s fileId)) 0),
                   label = lbl\<rparr>
          in Inr (v, s\<lparr>file_rows :=
                          map (\<lambda>f. if id_file f = fileId
                                    then f\<lparr>current_version_id := Some (id_version v)\<rparr> else f)
                              (file_rows s),
                        version_rows := version_rows s @ [v],
                        seq_versions := Suc (seq_versions s)\<rparr>))"

text \<open>Modelled from the spec: \<^verbatim>\<open>deleteVersion(versionId)\<close> of the absent \<^verbatim>\<open>FileVersionDB\<close>.
  It removes the row; if the row was its File's current Version, the pointer moves to the
  latest remaining Version of the File, or to null. The specification leaves open what
  happens when the Version does not exist; the model takes the silent no-op, which the
  specification recommends for clean-up loops.\<close>

definition deleteVersion :: "store \<Rightarrow> nat \<Rightarrow> store" where
  "deleteVersion s versionId =
     (case find (\<lambda>v. id_version v = versionId) (version_rows s) of
        None \<Rightarrow> s
      | Some v \<Rightarrow>
          let s1 = s\<lparr>version_rows := filter (\<lambda>u. id_version u \<noteq> versionId) (version_rows s)\<rparr>
          in s1\<lparr>file_rows :=
                  map (\<lambda>f. if id_file f = file_id v \<and> current_version_id f = Some versionId
                            then f\<lparr>current_version_id :=
                                     (case getFileVersions s1 (id_file f) (Some 1) of
                                        [] \<Rightarrow> None
                                      | u # _ \<Rightarrow> Some (id_version u))\<rparr>
                            else f)
                      (file_rows s1)\<rparr>)"

section \<open>What the handlers read from outside\<close>

text \<open>
  The handlers consult the editor, the settings provider, the clock, the \<^verbatim>\<open>git\<close> command
  line, Node's \<^verbatim>\<open>path.normalize\<close> and the \<^verbatim>\<open>createPatch\<close> function of the \<^verbatim>\<open>diff\<close>
  package. None of these is part of the sources, so each is a field of the environment
  a handler runs in:
  \<^item> \<open>asRelativePath\<close> is \<^verbatim>\<open>vscode.workspace.asRelativePath\<close>;
  \<^item> \<open>normalize_path\<close> is \<^verbatim>\<open>path.normalize\<close> (suffixed: \<open>normalize\<close> is a constant of HOL);
  \<^item> \<open>gitLog\<close> is the standard output of \<^verbatim>\<open>git log -1 --pretty=%B\<close>, or \<open>None\<close> when the
    command fails;
  \<^item> \<open>autoCleanupAfterCommit\<close> and \<open>saveAllChanges\<close> are the two settings;
  \<^item> \<open>createPatch\<close> takes the file name and the two texts and returns the patch text;
  \<^item> \<open>now\<close> is the time a created Version is stamped with.
\<close>

record env =
  asRelativePath :: "string \<Rightarrow> string"
  normalize_path :: "string \<Rightarrow> string"
  gitLog :: "string option"
  autoCleanupAfterCommit :: bool
  saveAllChanges :: bool
  createPatch :: "string \<Rightarrow> string \<Rightarrow> string \<Rightarrow> string"
  now :: string

text \<open>\<^verbatim>\<open>getLatestCommitMessage\<close>: the trimmed output of the command, the empty string when
  the command fails.\<close>

definition getLatestCommitMessage :: "env \<Rightarrow> string" where
  "getLatestCommitMessage e = (case gitLog e of None \<Rightarrow> [] | Some stdout \<Rightarrow> trim stdout)"

section \<open>Annotating the committed files\<close>

text \<open>The content of an annotated Version: the template string
  \<^verbatim>\<open>`/* Git commit: ${commitMessage} */\n${latestVersion.content}`\<close>.\<close>

definition commitMarker :: "string \<Rightarrow> string \<Rightarrow> string" where
  "commitMarker commitMessage c = ''/* Git commit: '' @ commitMessage @ '' */'' @ [newline] @ c"

text \<open>The clean-up loop \<^verbatim>\<open>for (const version of versions) deleteVersion(version.id)\<close>.\<close>

fun deleteVersions :: "store \<Rightarrow> VersionRecord list \<Rightarrow> store" where
  "deleteVersions s [] = s"
| "deleteVersions s (v # vs) = deleteVersions (deleteVersion s (id_version v)) vs"

text \<open>
  The loop over \<^verbatim>\<open>allFiles\<close> in \<^verbatim>\<open>handleGitCommit\<close>, with the store and \<^verbatim>\<open>processedCount\<close>
  passed along. An error thrown by the store leaves the loop at once; the store stays as
  it was at that moment, which is the left result.
\<close>

fun commitLoop ::
  "env \<Rightarrow> string set \<Rightarrow> string \<Rightarrow> bool \<Rightarrow> FileRecord list \<Rightarrow> store \<Rightarrow> nat
     \<Rightarrow> error \<times> store + store \<times> nat" where
  "commitLoop e changedFiles commitMessage autoCleanup [] s processedCount =
     Inr (s, processedCount)"
| "commitLoop e changedFiles commitMessage autoCleanup (file # rest) s processedCount =
     (if normalize_path e (file_path file) \<notin> changedFiles
      then commitLoop e changedFiles commitMessage autoCleanup rest s processedCount
      else case getFileVersions s (id_file file) None of
             [] \<Rightarrow> commitLoop e changedFiles commitMessage autoCleanup rest s processedCount
           | latestVersion # older \<Rightarrow>
               (case createVersion (now e) s (id_file file)
                       (commitMarker commitMessage (content latestVersion)) None of
                  Inl err \<Rightarrow> Inl (err, s)
                | Inr (created, s1) \<Rightarrow>
                    commitLoop e changedFiles commitMessage autoCleanup rest
                      (if autoCleanup then deleteVersions s1 (latestVersion # older) else s1)
                      (Suc processedCount)))"

text \<open>
  \<^verbatim>\<open>handleGitCommit\<close>. The commit message is optional and looked up when it is missing or
  empty; a message that is empty after trimming ends the call. Every error is caught and
  logged, so the call returns the store as the loop left it. Refreshing the tree view
  and the information message do not touch the store and are left out.
\<close>

definition handleGitCommit :: "env \<Rightarrow> store \<Rightarrow> string set \<Rightarrow> string option \<Rightarrow> store" where
  "handleGitCommit e s changedFiles commitMessage =
     (let msg = (case commitMessage of
                   None \<Rightarrow> getLatestCommitMessage e
                 | Some m \<Rightarrow> if m = [] then getLatestCommitMessage e else m)
      in if msg = [] \<or> trim msg = [] then s
         else case commitLoop e changedFiles msg (autoCleanupAfterCommit e) (getAllFiles s) s 0 of
                Inl (err, s') \<Rightarrow> s'
              | Inr (s', processedCount) \<Rightarrow> s')"

section \<open>The repository watcher\<close>

text \<open>
  The state the handler registered by \<^verbatim>\<open>setupRepositoryWatcher\<close> works on: the database,
  the two module-level maps keyed by repository path, and the flag \<^verbatim>\<open>isProcessingCommit\<close>
  of the watcher's closure. The model follows one watcher.
\<close>

record stagedInfo =
  files :: "string set"
  message :: string

record world =
  db :: store
  lastCommitByRepo :: "string \<rightharpoonup> string"
  stagedChangesMap :: "string \<rightharpoonup> stagedInfo"
  isProcessingCommit :: bool

text \<open>
  What one notification finds in \<^verbatim>\<open>repository\<close>: \<^verbatim>\<open>state.HEAD?.commit\<close> (absent when there
  is no HEAD or no commit), \<^verbatim>\<open>rootUri.fsPath\<close>, and the paths \<^verbatim>\<open>change.uri.fsPath\<close> of
  \<^verbatim>\<open>state.indexChanges\<close>. The repository object is untyped, so reading the index changes
  may throw; that is \<open>None\<close>.
\<close>

record notification =
  head_commit :: "string option"
  repoPath :: string
  indexChanges :: "string list option"

text \<open>
  The handler up to its first \<^verbatim>\<open>await\<close>. The result says whether the handler is suspended
  at \<^verbatim>\<open>await getLatestCommitMessage(repoPath)\<close> (\<open>True\<close>) or has returned (\<open>False\<close>).
  An empty commit string is falsy, as an absent one. An error thrown here reaches the outer
  \<^verbatim>\<open>catch\<close>, which clears the flag.
\<close>

definition onDidChange_sync :: "env \<Rightarrow> notification \<Rightarrow> world \<Rightarrow> world \<times> bool" where
  "onDidChange_sync e n w =
     (if isProcessingCommit w then (w, False)
      else case head_commit n of
             None \<Rightarrow> (w, False)
           | Some commit \<Rightarrow>
               if commit = [] then (w, False)
               else (case indexChanges n of
                       None \<Rightarrow> (w\<lparr>isProcessingCommit := False\<rparr>, False)
                     | Some changes \<Rightarrow>
                         let stagedFiles =
                               set (map (\<lambda>absolutePath.
                                      normalize_path e (asRelativePath e absolutePath)) changes);
                             w1 = w\<lparr>stagedChangesMap := (stagedChangesMap w)
                                      (repoPath n \<mapsto> \<lparr>files = stagedFiles, message = []\<rparr>)\<rparr>
                         in if lastCommitByRepo w1 (repoPath n) \<noteq> Some commit
                            then (w1\<lparr>isProcessingCommit := True,
                                     lastCommitByRepo :=
                                       (lastCommitByRepo w1)(repoPath n \<mapsto> commit)\<rparr>, True)
                            else (w1, False)))"

text \<open>
  The handler from the moment the commit message arrives to its end: the rest of the inner
  \<^verbatim>\<open>try\<close> and its \<^verbatim>\<open>finally\<close>. The world is the one found at that moment: other
  handlers may have run while this one was waiting. The two further waits inside
  \<^verbatim>\<open>handleGitCommit\<close> (for the setting and for the information message) are taken
  without any other handler running in between.
\<close>

definition onDidChange_rest :: "env \<Rightarrow> notification \<Rightarrow> world \<Rightarrow> world" where
  "onDidChange_rest e n w =
     (let commitMessage = getLatestCommitMessage e
      in if commitMessage = [] then w\<lparr>isProcessingCommit := False\<rparr>
         else case stagedChangesMap w (repoPath n) of
                None \<Rightarrow> w\<lparr>isProcessingCommit := False\<rparr>
              | Some info \<Rightarrow>
                  if files info \<noteq> {}
                  then w\<lparr>db := handleGitCommit e (db w) (files info) (Some commitMessage),
                         stagedChangesMap := (stagedChangesMap w)(repoPath n := None),
                         isProcessingCommit := False\<rparr>
                  else w\<lparr>isProcessingCommit := False\<rparr>)"

text \<open>One notification handled from start to end with nothing else running in between.\<close>

definition onDidChange :: "env \<Rightarrow> notification \<Rightarrow> world \<Rightarrow> world" where
  "onDidChange e n w =
     (case onDidChange_sync e n w of
        (w1, suspended) \<Rightarrow> if suspended then onDidChange_rest e n w1 else w1)"

text \<open>A sequence of notifications, each with the environment it runs in, handled one after
  the other.\<close>

fun onDidChange_all :: "(env \<times> notification) list \<Rightarrow> world \<Rightarrow> world" where
  "onDidChange_all [] w = w"
| "onDidChange_all ((e, n) # rest) w = onDidChange_all rest (onDidChange e n w)"

section \<open>The save handler\<close>

text \<open>
  The two-stage filter \<^verbatim>\<open>patch.split('\n').filter(...).filter(...)\<close> of the save handler:
  the lines of the patch that start with \<^verbatim>\<open>+\<close> or \<^verbatim>\<open>-\<close>, without those that start with
  \<^verbatim>\<open>+++\<close> or \<^verbatim>\<open>---\<close>.
\<close>

definition changes :: "string \<Rightarrow> string list" where
  "changes patch =
     filter (\<lambda>line. \<not> startsWith line ''+++'' \<and> \<not> startsWith line ''---'')
       (filter (\<lambda>line. startsWith line ''+'' \<or> startsWith line ''-'') (split patch newline))"

text \<open>
  The handler of \<^verbatim>\<open>onWillSaveTextDocument\<close>, given the document's URI and text. The
  source reads the latest Version twice, for the duplicate check and inside the branch
  for \<^verbatim>\<open>!saveAllChanges\<close>, from the same store; the model reads it once. An error of the
  store is caught and reported; the store stays as it was when the error was thrown. The
  delayed refresh of the tree view does not touch the store and is left out.
\<close>

definition onWillSaveTextDocument :: "env \<Rightarrow> string \<Rightarrow> string \<Rightarrow> store \<Rightarrow> store" where
  "onWillSaveTextDocument e uri text s =
     (let relativePath = asRelativePath e uri
      in case (case getFile s relativePath of
                 Some f \<Rightarrow> Inr (f, s)
               | None \<Rightarrow> createFile s relativePath) of
           Inl err \<Rightarrow> s
         | Inr (file, s1) \<Rightarrow>
             let persist = (case createVersion (now e) s1 (id_file file) text None of
                              Inl err \<Rightarrow> s1
                            | Inr (created, s2) \<Rightarrow> s2)
             in (case getFileVersions s1 (id_file file) (Some 1) of
                   [] \<Rightarrow>
                     if \<not> saveAllChanges e \<and> length (split text newline) \<le> 1 then s1
                     else persist
                 | latest # _ \<Rightarrow>
                     if content latest = text then s1
                     else if \<not> saveAllChanges e \<and>
                             length (changes (createPatch e ''file'' (content latest) text)) \<le> 2
                     then s1
                     else persist))"

section \<open>Notions used to state the properties\<close>

text \<open>
  The constraints of the schema in \<^verbatim>\<open>db/schema.ts\<close> that the proofs rely on: both primary
  keys are unique and, being \<^verbatim>\<open>AUTOINCREMENT\<close>, not above the largest key handed out; the
  foreign key \<^verbatim>\<open>versions.file_id\<close> references an existing File.
\<close>

definition wf_store :: "store \<Rightarrow> bool" where
  "wf_store s \<longleftrightarrow>
     distinct (map id_file (file_rows s)) \<and>
     (\<forall>f \<in> set (file_rows s). id_file f \<le> seq_files s) \<and>
     distinct (map id_version (version_rows s)) \<and>
     (\<forall>v \<in> set (version_rows s).
        id_version v \<le> seq_versions s \<and> file_id v \<in> id_file ` set (file_rows s))"

text \<open>The entry the handler stores in \<^verbatim>\<open>stagedChangesMap\<close> for the index changes it reads.\<close>

definition stagedSnapshot :: "env \<Rightarrow> string list \<Rightarrow> stagedInfo" where
  "stagedSnapshot e chg =
     \<lparr>files = set (map (\<lambda>absolutePath. normalize_path e (asRelativePath e absolutePath)) chg),
      message = []\<rparr>"

text \<open>The Versions of a File in the store \<open>s'\<close> that were not rows of the store \<open>s\<close>.\<close>

definition new_versions :: "store \<Rightarrow> store \<Rightarrow> nat \<Rightarrow> VersionRecord list" where
  "new_versions s s' i = filter (\<lambda>v. v \<notin> set (version_rows s)) (versions_of s' i)"

text \<open>A File that the commit pass processes: its normalized path is in the staged set and it
  has at least one Version.\<close>

definition staged_with_history :: "env \<Rightarrow> string set \<Rightarrow> store \<Rightarrow> FileRecord \<Rightarrow> bool" where
  "staged_with_history e changedFiles s f \<longleftrightarrow>
     normalize_path e (file_path f) \<in> changedFiles \<and> versions_of s (id_file f) \<noteq> []"

text \<open>What the pass does to the Versions of a processed File \<open>i\<close>: one Version with a key
  not handed out before is appended, its content the marker and the content of the latest
  Version before; with clean-up, it is the only one left.\<close>

definition annotated :: "string \<Rightarrow> bool \<Rightarrow> store \<Rightarrow> store \<Rightarrow> nat \<Rightarrow> bool" where
  "annotated msg ac s s' i \<longleftrightarrow>
     (\<exists>v latest older.
        versions_of s' i = (if ac then [] else versions_of s i) @ [v] \<and>
        seq_versions s < id_version v \<and>
        getFileVersions s i None = latest # older \<and>
        content v = commitMarker msg (content latest))"

text \<open>
  The count as the specification words it: the lines of the patch marked as added or
  removed, excluding the two diff-header lines. In the text \<^verbatim>\<open>createPatch\<close> returns, the two
  header lines (\<^verbatim>\<open>--- file\<close> and \<^verbatim>\<open>+++ file\<close>) are the third and the fourth line.
\<close>

definition changedLines_spec :: "string \<Rightarrow> string list" where
  "changedLines_spec patch =
     (let lines = split patch newline
      in filter (\<lambda>line. startsWith line ''+'' \<or> startsWith line ''-'')
           (take 2 lines @ drop 4 lines))"

section \<open>Example data\<close>

text \<open>
  A workspace \<^verbatim>\<open>/repo\<close> with four tracked files. \<^verbatim>\<open>a.txt\<close> has two Versions, the others one
  each; \<^verbatim>\<open>c.txt\<close> holds the three lines of the specification's filter example and
  \<^verbatim>\<open>q.sql\<close> three comment lines and a statement.
\<close>

definition unlines :: "string list \<Rightarrow> string" where
  "unlines ls = concat (map (\<lambda>l. l @ [newline]) ls)"

definition ex_abc_old :: string where
  "ex_abc_old = ''a'' @ [newline] @ ''b'' @ [newline] @ ''c''"

definition ex_abc_new :: string where
  "ex_abc_new = ''a'' @ [newline] @ ''x'' @ [newline] @ ''c''"

definition ex_sql_old :: string where
  "ex_sql_old = unlines [''--a'', ''--b'', ''--c'', ''d'']"

definition ex_sql_new :: string where
  "ex_sql_new = unlines [''d'']"

definition ex_store :: store where
  "ex_store =
     \<lparr>file_rows =
        [\<lparr>id_file = 1, file_path = ''a.txt'', current_version_id = Some 3\<rparr>,
         \<lparr>id_file = 2, file_path = ''b.txt'', current_version_id = Some 2\<rparr>,
         \<lparr>id_file = 3, file_path = ''c.txt'', current_version_id = Some 4\<rparr>,
         \<lparr>id_file = 4, file_path = ''q.sql'', current_version_id = Some 5\<rparr>],
      version_rows =
        [\<lparr>id_version = 1, file_id = 1, content = ''a1'', timestamp = ''t0'',
          version_number = 1, label = None\<rparr>,
         \<lparr>id_version = 2, file_id = 2, content = ''b1'', timestamp = ''t0'',
          version_number = 1, label = None\<rparr>,
         \<lparr>id_version = 3, file_id = 1, content = ''a2'', timestamp = ''t1'',
          version_number = 2, label = None\<rparr>,
         \<lparr>id_version = 4, file_id = 3, content = ex_abc_old, timestamp = ''t1'',
          version_number = 1, label = None\<rparr>,
         \<lparr>id_version = 5, file_id = 4, content = ex_sql_old, timestamp = ''t1'',
          version_number = 1, label = None\<rparr>],
      seq_files = 4, seq_versions = 5\<rparr>"

text \<open>
  The text \<^verbatim>\<open>createPatch\<close> of the \<^verbatim>\<open>diff\<close> package (version 7) returns: the four header
  lines, then for each hunk its range line and its lines, every line followed by a line
  feed. The table gives it on the two pairs of texts used below; on equal texts the
  package returns the header alone, which stands for every other pair here.
\<close>

definition ex_patch_header :: "string \<Rightarrow> string list" where
  "ex_patch_header fileName =
     [''Index: '' @ fileName,
      ''==================================================================='',
      ''--- '' @ fileName,
      ''+++ '' @ fileName]"

definition ex_createPatch :: "string \<Rightarrow> string \<Rightarrow> string \<Rightarrow> string" where
  "ex_createPatch fileName oldStr newStr =
     (if oldStr = ex_abc_old \<and> newStr = ex_abc_new
      then unlines (ex_patch_header fileName @
             [''@@ -1,3 +1,3 @@'', '' a'', ''-b'', ''+x'', '' c'',
              CHR 0x5C # '' No newline at end of file''])
      else if oldStr = ex_sql_old \<and> newStr = ex_sql_new
      then unlines (ex_patch_header fileName @
             [''@@ -1,4 +1,1 @@'', ''---a'', ''---b'', ''---c'', '' d''])
      else unlines (ex_patch_header fileName))"

text \<open>The environment: paths below \<^verbatim>\<open>/repo/\<close> are made relative, the example paths are
  already normal, and the last commit message is \<^verbatim>\<open>fix bug\<close>.\<close>

definition ex_env :: env where
  "ex_env =
     \<lparr>asRelativePath = (\<lambda>p. if startsWith p ''/repo/'' then drop 6 p else p),
      normalize_path = (\<lambda>p. p),
      gitLog = Some (''fix bug'' @ [newline]),
      autoCleanupAfterCommit = False,
      saveAllChanges = False,
      createPatch = ex_createPatch,
      now = ''t2''\<rparr>"

definition ex_world :: world where
  "ex_world =
     \<lparr>db = ex_store,
      lastCommitByRepo = [''/repo'' \<mapsto> ''h1''],
      stagedChangesMap = Map.empty,
      isProcessingCommit = False\<rparr>"

text \<open>The notification after the commit \<^verbatim>\<open>h2\<close>, with \<^verbatim>\<open>a.txt\<close> and \<^verbatim>\<open>b.txt\<close> in the index.\<close>

definition ex_notification :: notification where
  "ex_notification =
     \<lparr>head_commit = Some ''h2'', repoPath = ''/repo'',
      indexChanges = Some [''/repo/a.txt'', ''/repo/b.txt'']\<rparr>"

text \<open>The world while the handler of that notification waits for the commit message.\<close>

definition ex_busy_world :: world where
  "ex_busy_world = fst (onDidChange_sync ex_env ex_notification ex_world)"

section \<open>Strings\<close>

lemma dropWhile_hd_id: "xs = [] \<or> \<not> P (hd xs) \<Longrightarrow> dropWhile P xs = xs"
  by (cases xs) auto

lemma last_dropWhile: "dropWhile P xs \<noteq> [] \<Longrightarrow> last (dropWhile P xs) = last xs"
  by (induction xs) (auto split: if_splits)

lemma trim_Nil: "trim [] = []"
  by (simp add: trim_def)

lemma trim_trim: "trim (trim s) = trim s"
proof (cases "trim s = []")
  case True
  then show ?thesis by (simp add: trim_Nil)
next
  case False
  define u where "u = dropWhile isWhiteSpace s"
  define r where "r = dropWhile isWhiteSpace (rev u)"
  have t: "trim s = rev r" by (simp add: trim_def u_def r_def)
  with False have rne: "r \<noteq> []" by simp
  then have une: "u \<noteq> []" by (auto simp: r_def)
  have hd_r: "\<not> isWhiteSpace (hd r)" using rne unfolding r_def by (rule hd_dropWhile)
  have "last r = last (rev u)" using rne unfolding r_def by (rule last_dropWhile)
  also have "\<dots> = hd u" using une by (simp add: last_rev)
  finally have last_r: "\<not> isWhiteSpace (last r)"
    using une hd_dropWhile[of isWhiteSpace s] by (simp add: u_def)
  have "hd (rev r) = last r" using rne by (simp add: hd_rev)
  then have a: "dropWhile isWhiteSpace (rev r) = rev r"
    using last_r by (intro dropWhile_hd_id) simp
  have b: "dropWhile isWhiteSpace r = r"
    using hd_r by (intro dropWhile_hd_id) simp
  show ?thesis unfolding t by (simp add: trim_def a b)
qed

lemma length_split_acc: "length (split_acc sep acc s) = Suc (length (filter (\<lambda>c. c = sep) s))"
  by (induction s arbitrary: acc) auto

lemma length_split: "length (split s sep) = Suc (length (filter (\<lambda>c. c = sep) s))"
  by (simp add: split_def length_split_acc)

lemma split_single: "length (split s sep) \<le> Suc 0 \<longleftrightarrow> sep \<notin> set s"
  by (auto simp add: length_split filter_empty_conv)


section \<open>The store operations\<close>

lemma find_map_same:
  assumes "\<And>x. P (g x) = P x"
  shows "find P (map g xs) = map_option g (find P xs)"
  using assms by (induction xs) auto

lemma getFile_createFile:
  "getFile s p = None \<Longrightarrow> createFile s p = Inr (\<lparr>id_file = Suc (seq_files s), file_path = p, current_version_id = None\<rparr>,
      s\<lparr>file_rows := file_rows s @ [\<lparr>id_file = Suc (seq_files s), file_path = p, current_version_id = None\<rparr>], seq_files := Suc (seq_files s)\<rparr>)"
  by (simp add: createFile_def Let_def)

lemma find_append: "find P (xs @ ys) = (case find P xs of None \<Rightarrow> find P ys | Some x \<Rightarrow> Some x)"
  by (induction xs) auto

lemma getFile_after_createVersion:
  "createVersion ts s i c l = Inr (v, s') \<Longrightarrow> getFile s p = Some f \<Longrightarrow> \<exists>f'. getFile s' p = Some f' \<and> id_file f' = id_file f"
  unfolding createVersion_def getFile_def Let_def
  by (auto split: option.splits simp: find_map_same)

lemma createVersion_ok: "getFileById s i \<noteq> None \<Longrightarrow> \<exists>v s'. createVersion ts s i c l = Inr (v, s')"
  by (auto simp: createVersion_def Let_def split: option.splits)

lemma versions_of_fresh: "wf_store s \<Longrightarrow> versions_of s (Suc (seq_files s)) = []"
  by (fastforce simp: wf_store_def versions_of_def filter_empty_conv)

lemma sort_key_Nil: "sort_key f xs = [] \<longleftrightarrow> xs = []"
  using length_sort[of f xs] by (metis length_0_conv)

lemma getFileVersions_Nil: "getFileVersions s i lim = [] \<longleftrightarrow> versions_of s i = [] \<or> lim = Some 0"
  by (auto simp: getFileVersions_def Let_def sort_key_Nil split: option.splits)

lemma save_new_file_exists:
  assumes "getFile s (asRelativePath e uri) = None"
  shows "\<exists>f. getFile (onWillSaveTextDocument e uri text s) (asRelativePath e uri) = Some f \<and> id_file f = Suc (seq_files s)"
proof -
  let ?p = "asRelativePath e uri"
  let ?f = "\<lparr>id_file = Suc (seq_files s), file_path = ?p, current_version_id = None\<rparr>"
  let ?s1 = "s\<lparr>file_rows := file_rows s @ [?f], seq_files := Suc (seq_files s)\<rparr>"
  have g1: "getFile ?s1 ?p = Some ?f"
    using assms by (simp add: getFile_def find_append)
  have "getFileById ?s1 (Suc (seq_files s)) \<noteq> None"
    by (simp add: getFileById_def find_append split: option.splits)
  then obtain v s2 where cv: "createVersion (now e) ?s1 (Suc (seq_files s)) text None = Inr (v, s2)"
    using createVersion_ok by blast
  from getFile_after_createVersion[OF cv g1]
  have g2: "\<exists>f'. getFile s2 ?p = Some f' \<and> id_file f' = Suc (seq_files s)" by simp
  show ?thesis
    using assms g1 g2 cv
    by (auto simp: onWillSaveTextDocument_def Let_def getFile_createFile split: list.splits)
qed



lemma createVersion_Inr:
  assumes "createVersion ts s i c l = Inr (v, s')"
  shows "version_rows s' = version_rows s @ [v]" "content v = c" "file_id v = i"
    "id_version v = Suc (seq_versions s)" "seq_versions s' = Suc (seq_versions s)"
    "map id_file (file_rows s') = map id_file (file_rows s)" "seq_files s' = seq_files s"
  using assms by (auto simp: createVersion_def Let_def split: option.splits)

lemma save_existing_file:
  assumes "getFile s (asRelativePath e uri) = Some f"
  shows "onWillSaveTextDocument e uri text s =
     (case getFileVersions s (id_file f) (Some 1) of
        [] \<Rightarrow> if \<not> saveAllChanges e \<and> length (split text newline) \<le> 1 then s
              else (case createVersion (now e) s (id_file f) text None of Inl err \<Rightarrow> s | Inr (created, s2) \<Rightarrow> s2)
      | latest # _ \<Rightarrow>
          if content latest = text then s
          else if \<not> saveAllChanges e \<and> length (changes (createPatch e ''file'' (content latest) text)) \<le> 2 then s
          else (case createVersion (now e) s (id_file f) text None of Inl err \<Rightarrow> s | Inr (created, s2) \<Rightarrow> s2))"
  using assms by (simp add: onWillSaveTextDocument_def Let_def)

lemma getFile_Some: "getFile s p = Some f \<Longrightarrow> f \<in> set (file_rows s) \<and> file_path f = p"
  unfolding getFile_def by (auto simp: find_Some_iff)

lemma getFileById_in: "f \<in> set (file_rows s) \<Longrightarrow> getFileById s (id_file f) \<noteq> None"
  unfolding getFileById_def by (auto simp: find_None_iff)


lemma save_new_file_rejected:
  assumes "wf_store s" "getFile s (asRelativePath e uri) = None" "\<not> saveAllChanges e" "length (split text newline) \<le> 1"
  shows "onWillSaveTextDocument e uri text s =
           s\<lparr>file_rows := file_rows s @ [\<lparr>id_file = Suc (seq_files s), file_path = asRelativePath e uri, current_version_id = None\<rparr>],
              seq_files := Suc (seq_files s)\<rparr>"
proof -
  let ?p = "asRelativePath e uri"
  let ?f = "\<lparr>id_file = Suc (seq_files s), file_path = ?p, current_version_id = None\<rparr>"
  let ?s1 = "s\<lparr>file_rows := file_rows s @ [?f], seq_files := Suc (seq_files s)\<rparr>"
  have nov: "getFileVersions ?s1 (Suc (seq_files s)) (Some 1) = []"
    using versions_of_fresh[OF assms(1)] by (simp add: getFileVersions_Nil versions_of_def)
  show ?thesis using assms nov
    by (simp add: onWillSaveTextDocument_def Let_def getFile_createFile)
qed

lemma deleteVersion_rows:
  "version_rows (deleteVersion s i) = filter (\<lambda>u. id_version u \<noteq> i) (version_rows s)"
proof (cases "find (\<lambda>v. id_version v = i) (version_rows s)")
  case None
  then have "\<forall>u \<in> set (version_rows s). id_version u \<noteq> i"
    by (auto simp: find_None_iff)
  then have "filter (\<lambda>u. id_version u \<noteq> i) (version_rows s) = version_rows s"
    by (simp add: filter_id_conv)
  with None show ?thesis by (simp add: deleteVersion_def)
next
  case (Some v)
  then show ?thesis by (simp add: deleteVersion_def Let_def)
qed

lemma deleteVersion_frame:
  "map id_file (file_rows (deleteVersion s i)) = map id_file (file_rows s)"
  "seq_versions (deleteVersion s i) = seq_versions s"
  "seq_files (deleteVersion s i) = seq_files s"
  by (auto simp: deleteVersion_def Let_def split: option.splits)

lemma deleteVersions_rows:
  "version_rows (deleteVersions s vs) =
     filter (\<lambda>u. id_version u \<notin> id_version ` set vs) (version_rows s)"
  by (induction vs arbitrary: s) (auto simp: deleteVersion_rows intro: filter_cong)

lemma deleteVersions_frame:
  "map id_file (file_rows (deleteVersions s vs)) = map id_file (file_rows s)"
  "seq_versions (deleteVersions s vs) = seq_versions s"
  "seq_files (deleteVersions s vs) = seq_files s"
  by (induction vs arbitrary: s) (auto simp: deleteVersion_frame)

lemma set_getFileVersions: "set (getFileVersions s i None) = set (versions_of s i)"
  by (simp add: getFileVersions_def)

lemma getFileVersions_cong:
  "versions_of s' i = versions_of s i \<Longrightarrow> getFileVersions s' i lim = getFileVersions s i lim"
  by (simp add: getFileVersions_def)

text \<open>With unique keys, removing the rows whose key is a key of File \<open>i\<close> removes exactly
  the rows of File \<open>i\<close>.\<close>

lemma filter_ids_of_file:
  assumes "distinct (map id_version rows)"
  shows "filter (\<lambda>u. id_version u \<notin> id_version ` set (filter (\<lambda>v. file_id v = i) rows)) rows =
         filter (\<lambda>u. file_id u \<noteq> i) rows"
proof (rule filter_cong[OF refl])
  fix u assume u: "u \<in> set rows"
  show "(id_version u \<notin> id_version ` set (filter (\<lambda>v. file_id v = i) rows)) = (file_id u \<noteq> i)"
  proof
    assume "id_version u \<notin> id_version ` set (filter (\<lambda>v. file_id v = i) rows)"
    with u show "file_id u \<noteq> i" by auto
  next
    assume ne: "file_id u \<noteq> i"
    show "id_version u \<notin> id_version ` set (filter (\<lambda>v. file_id v = i) rows)"
    proof
      assume "id_version u \<in> id_version ` set (filter (\<lambda>v. file_id v = i) rows)"
      then obtain v where v: "v \<in> set rows" "file_id v = i" "id_version v = id_version u" by auto
      from assms have "inj_on id_version (set rows)" by (simp add: distinct_map)
      with u v have "u = v" by (auto dest: inj_onD)
      with v ne show False by simp
    qed
  qed
qed


lemma file_ids_image: "id_file ` set (file_rows s) = set (map id_file (file_rows s))"
  by simp

lemma annotate_step:
  assumes wf: "wf_store s" and f: "i \<in> id_file ` set (file_rows s)"
    and gv: "getFileVersions s i None = latest # older"
    and cv: "createVersion ts s i c None = Inr (v, s1)"
    and s2: "s2 = (if ac then deleteVersions s1 (latest # older) else s1)"
  shows "version_rows s2 =
           (if ac then filter (\<lambda>u. file_id u \<noteq> i) (version_rows s) else version_rows s) @ [v]"
    and "wf_store s2"
    and "map id_file (file_rows s2) = map id_file (file_rows s)"
    and "seq_versions s2 = Suc (seq_versions s)"
proof -
  note cvs = createVersion_Inr[OF cv]
  have dist: "distinct (map id_version (version_rows s))"
    and le: "\<forall>u \<in> set (version_rows s). id_version u \<le> seq_versions s"
    using wf by (auto simp: wf_store_def)
  have ids: "id_version ` set (latest # older) =
             id_version ` set (filter (\<lambda>v. file_id v = i) (version_rows s))"
    using set_getFileVersions[of s i] gv by (simp add: versions_of_def)
  have fresh: "id_version v \<notin> id_version ` set (version_rows s)"
    using le cvs(4) by auto
  then have keep: "id_version v \<notin> id_version ` set (filter (\<lambda>v. file_id v = i) (version_rows s))"
    by auto
  show rows: "version_rows s2 =
           (if ac then filter (\<lambda>u. file_id u \<noteq> i) (version_rows s) else version_rows s) @ [v]"
  proof (cases ac)
    case True
    then have "version_rows s2 =
        filter (\<lambda>u. id_version u \<notin> id_version ` set (filter (\<lambda>v. file_id v = i) (version_rows s)))
          (version_rows s @ [v])"
      using s2 cvs(1) ids by (simp only: deleteVersions_rows if_True)
    also have "\<dots> = filter (\<lambda>u. file_id u \<noteq> i) (version_rows s) @ [v]"
      using keep filter_ids_of_file[OF dist, of i] by simp
    finally show ?thesis using True by simp
  next
    case False
    then show ?thesis using s2 cvs(1) by simp
  qed
  show fids: "map id_file (file_rows s2) = map id_file (file_rows s)"
    using s2 cvs(6) by (simp add: deleteVersions_frame del: deleteVersions.simps)
  show seq: "seq_versions s2 = Suc (seq_versions s)"
    using s2 cvs(5) by (simp add: deleteVersions_frame del: deleteVersions.simps)
  have seqf: "seq_files s2 = seq_files s"
    using s2 cvs(7) by (simp add: deleteVersions_frame del: deleteVersions.simps)
  have sub: "set (version_rows s2) \<subseteq> insert v (set (version_rows s))"
    using rows by auto
  have d2: "distinct (map id_version (version_rows s2))"
    using rows dist fresh by (auto simp: distinct_map_filter)
  have "\<forall>u \<in> set (version_rows s2). id_version u \<le> seq_versions s2 \<and>
           file_id u \<in> id_file ` set (file_rows s2)"
  proof
    fix u assume "u \<in> set (version_rows s2)"
    with sub have "u = v \<or> u \<in> set (version_rows s)" by auto
    then show "id_version u \<le> seq_versions s2 \<and> file_id u \<in> id_file ` set (file_rows s2)"
    proof
      assume "u = v"
      then show ?thesis using cvs(3,4) seq f fids by (simp only: file_ids_image) simp
    next
      assume "u \<in> set (version_rows s)"
      then have "id_version u \<le> seq_versions s" "file_id u \<in> id_file ` set (file_rows s)"
        using wf by (auto simp: wf_store_def)
      then show ?thesis using seq fids by (simp only: file_ids_image) simp
    qed
  qed
  moreover have "distinct (map id_file (file_rows s2))"
    using wf fids by (simp add: wf_store_def)
  moreover have "\<forall>g \<in> set (file_rows s2). id_file g \<le> seq_files s2"
  proof
    fix g assume "g \<in> set (file_rows s2)"
    then have "id_file g \<in> set (map id_file (file_rows s2))" by simp
    then have "id_file g \<in> set (map id_file (file_rows s))" using fids by simp
    then show "id_file g \<le> seq_files s2" using wf seqf by (auto simp: wf_store_def)
  qed
  ultimately show "wf_store s2" using d2 by (simp add: wf_store_def)
qed


lemma annotated_cong:
  assumes "annotated msg ac s2 s' i" "versions_of s2 i = versions_of s i"
    "seq_versions s \<le> seq_versions s2"
  shows "annotated msg ac s s' i"
proof -
  from assms(1) obtain v latest older where
    h: "versions_of s' i = (if ac then [] else versions_of s2 i) @ [v]"
       "seq_versions s2 < id_version v"
       "getFileVersions s2 i None = latest # older"
       "content v = commitMarker msg (content latest)"
    unfolding annotated_def by blast
  have "getFileVersions s i None = latest # older"
    using h(3) getFileVersions_cong[OF assms(2)] by simp
  moreover have "seq_versions s < id_version v" using h(2) assms(3) by simp
  ultimately show ?thesis
    unfolding annotated_def using h(1,4) assms(2) by auto
qed


section \<open>The commit pass\<close>

lemma commitLoop_effect:
  assumes "wf_store s" "id_file ` set fs \<subseteq> id_file ` set (file_rows s)"
    "distinct (map id_file fs)"
  shows "\<exists>s' cnt'. commitLoop e ch msg ac fs s cnt = Inr (s', cnt') \<and> wf_store s' \<and>
           map id_file (file_rows s') = map id_file (file_rows s) \<and>
           seq_versions s \<le> seq_versions s' \<and>
           (\<forall>j. j \<notin> id_file ` set fs \<longrightarrow> versions_of s' j = versions_of s j) \<and>
           (\<forall>f \<in> set fs.
              if staged_with_history e ch s f then annotated msg ac s s' (id_file f)
              else versions_of s' (id_file f) = versions_of s (id_file f))"
  using assms
proof (induction fs arbitrary: s cnt)
  case Nil
  then show ?case by simp
next
  case (Cons f rest)
  let ?i = "id_file f"
  have wf: "wf_store s" by fact
  have i_in: "?i \<in> id_file ` set (file_rows s)" using Cons.prems(2) by auto
  have sub: "id_file ` set rest \<subseteq> id_file ` set (file_rows s)" using Cons.prems(2) by auto
  have dist: "distinct (map id_file rest)" using Cons.prems(3) by simp
  have i_notin: "?i \<notin> id_file ` set rest" using Cons.prems(3) by auto
  show ?case
  proof (cases "staged_with_history e ch s f")
    case False
    then have "normalize_path e (file_path f) \<notin> ch \<or> getFileVersions s ?i None = []"
      by (auto simp: staged_with_history_def getFileVersions_Nil)
    then have eq: "commitLoop e ch msg ac (f # rest) s cnt = commitLoop e ch msg ac rest s cnt"
      by auto
    from Cons.IH[OF wf sub dist, of cnt] obtain s' cnt' where
      ih: "commitLoop e ch msg ac rest s cnt = Inr (s', cnt')" "wf_store s'"
          "map id_file (file_rows s') = map id_file (file_rows s)"
          "seq_versions s \<le> seq_versions s'"
          "\<forall>j. j \<notin> id_file ` set rest \<longrightarrow> versions_of s' j = versions_of s j"
          "\<forall>g \<in> set rest.
              if staged_with_history e ch s g then annotated msg ac s s' (id_file g)
              else versions_of s' (id_file g) = versions_of s (id_file g)"
      by blast
    have "versions_of s' ?i = versions_of s ?i" using ih(5) i_notin by blast
    with False ih show ?thesis unfolding eq by auto
  next
    case True
    then have ne: "getFileVersions s ?i None \<noteq> []" and inch: "normalize_path e (file_path f) \<in> ch"
      by (auto simp: staged_with_history_def getFileVersions_Nil)
    then obtain latest older where gv: "getFileVersions s ?i None = latest # older"
      by (cases "getFileVersions s ?i None") auto
    from i_in have "getFileById s ?i \<noteq> None"
      using getFileById_in by fastforce
    then obtain v s1 where
      cv: "createVersion (now e) s ?i (commitMarker msg (content latest)) None = Inr (v, s1)"
      using createVersion_ok by blast
    define s2 where "s2 = (if ac then deleteVersions s1 (latest # older) else s1)"
    note st = annotate_step[OF wf i_in gv cv s2_def]
    note cvs = createVersion_Inr[OF cv]
    have eq: "commitLoop e ch msg ac (f # rest) s cnt = commitLoop e ch msg ac rest s2 (Suc cnt)"
      using inch gv cv s2_def by (simp del: deleteVersions.simps)
    have other: "versions_of s2 j = versions_of s j" if "j \<noteq> ?i" for j
      using st(1) cvs(3) that by (auto simp: versions_of_def intro: filter_cong)
    have own: "versions_of s2 ?i = (if ac then [] else versions_of s ?i) @ [v]"
      using st(1) cvs(3) by (auto simp: versions_of_def)
    have sub2: "id_file ` set rest \<subseteq> id_file ` set (file_rows s2)"
      using sub st(3) by (simp only: file_ids_image)
    from Cons.IH[OF st(2) sub2 dist, of "Suc cnt"] obtain s' cnt' where
      ih: "commitLoop e ch msg ac rest s2 (Suc cnt) = Inr (s', cnt')" "wf_store s'"
          "map id_file (file_rows s') = map id_file (file_rows s2)"
          "seq_versions s2 \<le> seq_versions s'"
          "\<forall>j. j \<notin> id_file ` set rest \<longrightarrow> versions_of s' j = versions_of s2 j"
          "\<forall>g \<in> set rest.
              if staged_with_history e ch s2 g then annotated msg ac s2 s' (id_file g)
              else versions_of s' (id_file g) = versions_of s2 (id_file g)"
      by blast
    have seq: "seq_versions s \<le> seq_versions s2" using st(4) by simp
    have f_ok: "annotated msg ac s s' ?i"
    proof -
      have "versions_of s' ?i = versions_of s2 ?i" using ih(5) i_notin by blast
      then show ?thesis
        unfolding annotated_def using own gv cvs(2,4) by auto
    qed
    have rest_ok: "if staged_with_history e ch s g then annotated msg ac s s' (id_file g)
              else versions_of s' (id_file g) = versions_of s (id_file g)"
      if g: "g \<in> set rest" for g
    proof -
      from g i_notin have neq: "id_file g \<noteq> ?i" by (metis imageI)
      have same: "versions_of s2 (id_file g) = versions_of s (id_file g)"
        using other[OF neq] .
      then have q: "staged_with_history e ch s2 g = staged_with_history e ch s g"
        by (simp add: staged_with_history_def)
      from ih(6) g have
        "if staged_with_history e ch s2 g then annotated msg ac s2 s' (id_file g)
         else versions_of s' (id_file g) = versions_of s2 (id_file g)" by blast
      then show ?thesis
        using q same annotated_cong[OF _ same seq] by (auto split: if_splits)
    qed
    have frame: "versions_of s' j = versions_of s j" if "j \<notin> id_file ` set (f # rest)" for j
    proof -
      from that have "j \<noteq> ?i" "j \<notin> id_file ` set rest" by auto
      then show ?thesis using ih(5) other by simp
    qed
    show ?thesis
      unfolding eq using ih(1,2) ih(3) st(3) ih(4) seq True f_ok rest_ok frame
      by auto
  qed
qed

lemma getLatestCommitMessage_trimmed: "trim (getLatestCommitMessage e) = getLatestCommitMessage e"
  by (simp add: getLatestCommitMessage_def trim_trim trim_Nil split: option.splits)

lemma onDidChange_commit:
  assumes "\<not> isProcessingCommit w" "head_commit n = Some c" "c \<noteq> []"
    "lastCommitByRepo w (repoPath n) \<noteq> Some c" "indexChanges n = Some chg" "chg \<noteq> []"
    "getLatestCommitMessage e \<noteq> []"
  shows "db (onDidChange e n w) =
           handleGitCommit e (db w) (files (stagedSnapshot e chg)) (Some (getLatestCommitMessage e))"
  using assms
  by (simp add: onDidChange_def onDidChange_sync_def onDidChange_rest_def Let_def stagedSnapshot_def)

lemma handleGitCommit_effect:
  assumes wf: "wf_store s" and msg: "getLatestCommitMessage e \<noteq> []" and f: "f \<in> set (file_rows s)"
  shows "if staged_with_history e ch s f
         then annotated (getLatestCommitMessage e) (autoCleanupAfterCommit e) s
                (handleGitCommit e s ch (Some (getLatestCommitMessage e))) (id_file f)
         else versions_of (handleGitCommit e s ch (Some (getLatestCommitMessage e))) (id_file f) =
              versions_of s (id_file f)"
proof -
  let ?m = "getLatestCommitMessage e"
  let ?s' = "handleGitCommit e s ch (Some ?m)"
  have dist: "distinct (map id_file (file_rows s))" using wf by (simp add: wf_store_def)
  from commitLoop_effect[OF wf subset_refl dist, of e ch ?m "autoCleanupAfterCommit e" 0]
  obtain t cnt where
    l: "commitLoop e ch ?m (autoCleanupAfterCommit e) (file_rows s) s 0 = Inr (t, cnt)"
       "\<forall>f \<in> set (file_rows s).
              if staged_with_history e ch s f then annotated ?m (autoCleanupAfterCommit e) s t (id_file f)
              else versions_of t (id_file f) = versions_of s (id_file f)"
    by blast
  have "?s' = t"
    using msg l(1) by (simp add: handleGitCommit_def getAllFiles_def getLatestCommitMessage_trimmed)
  with l(2) f show ?thesis by blast
qed

lemma annotated_created:
  assumes wf: "wf_store s" and a: "annotated msg ac s s' i"
  shows "\<exists>v latest older. new_versions s s' i = [v] \<and> getFileVersions s i None = latest # older \<and>
           content v = commitMarker msg (content latest)"
proof -
  from a obtain v latest older where
    h: "versions_of s' i = (if ac then [] else versions_of s i) @ [v]"
       "seq_versions s < id_version v"
       "getFileVersions s i None = latest # older"
       "content v = commitMarker msg (content latest)"
    unfolding annotated_def by blast
  have "v \<notin> set (version_rows s)" using wf h(2) by (auto simp: wf_store_def)
  moreover have "filter (\<lambda>v. v \<notin> set (version_rows s)) (versions_of s i) = []"
    by (auto simp: versions_of_def filter_empty_conv)
  ultimately have "new_versions s s' i = [v]"
    using h(1) by (simp add: new_versions_def)
  with h(3,4) show ?thesis by blast
qed


section \<open>The example data evaluated\<close>

lemmas ex_defs = ex_store_def ex_env_def ex_world_def ex_notification_def ex_busy_world_def
  ex_createPatch_def ex_patch_header_def ex_abc_old_def ex_abc_new_def ex_sql_old_def
  ex_sql_new_def unlines_def newline_def

lemmas eval_defs = onDidChange_def onDidChange_sync_def onDidChange_rest_def handleGitCommit_def
  getAllFiles_def getLatestCommitMessage_def trim_def isWhiteSpace_def getFileVersions_def
  versions_of_def createVersion_def getFileById_def commitMarker_def stagedSnapshot_def
  startsWith_def Let_def

lemma ex_store_wf: "wf_store ex_store"
  by (simp add: wf_store_def ex_defs)

lemma ex_message: "getLatestCommitMessage ex_env = ''fix bug''"
  by (simp add: getLatestCommitMessage_def trim_def isWhiteSpace_def ex_defs)

section \<open>Properties of the commit pass\<close>

text \<open>
  Claim C1. When a commit is detected (the handler is not busy, the HEAD hash differs from
  the last one seen, the commit message is not empty and the staged set is not empty),
  every File whose normalized path is in the staged set and which has at least one
  Version gets exactly one new Version, whose content is the marker line with the commit
  message followed by the content of the File's latest Version before; every other File
  gets no new Version, and its Versions are as before.
\<close>

theorem commit_annotates_staged_files:
  assumes "wf_store (db w)" "\<not> isProcessingCommit w"
    "head_commit n = Some c" "c \<noteq> []" "lastCommitByRepo w (repoPath n) \<noteq> Some c"
    "indexChanges n = Some chg" "chg \<noteq> []"
    "getLatestCommitMessage e \<noteq> []"
    "f \<in> set (file_rows (db w))"
  shows "(normalize_path e (file_path f) \<in> files (stagedSnapshot e chg) \<and>
          versions_of (db w) (id_file f) \<noteq> [] \<longrightarrow>
            (\<exists>v latest older.
               new_versions (db w) (db (onDidChange e n w)) (id_file f) = [v] \<and>
               getFileVersions (db w) (id_file f) None = latest # older \<and>
               content v = ''/* Git commit: '' @ getLatestCommitMessage e @ '' */'' @ [newline] @ content latest)) \<and>
         (\<not> (normalize_path e (file_path f) \<in> files (stagedSnapshot e chg) \<and>
             versions_of (db w) (id_file f) \<noteq> []) \<longrightarrow>
            new_versions (db w) (db (onDidChange e n w)) (id_file f) = [] \<and>
            versions_of (db (onDidChange e n w)) (id_file f) = versions_of (db w) (id_file f))"
proof -
  let ?ch = "files (stagedSnapshot e chg)"
  have eq: "db (onDidChange e n w) = handleGitCommit e (db w) ?ch (Some (getLatestCommitMessage e))"
    using assms by (intro onDidChange_commit) auto
  note eff = handleGitCommit_effect[OF assms(1) assms(8) assms(9), of ?ch]
  show ?thesis
  proof (cases "staged_with_history e ?ch (db w) f")
    case True
    with eff have "annotated (getLatestCommitMessage e) (autoCleanupAfterCommit e) (db w)
                     (db (onDidChange e n w)) (id_file f)"
      by (simp add: eq)
    from annotated_created[OF assms(1) this] True show ?thesis
      by (simp add: staged_with_history_def commitMarker_def)
  next
    case False
    with eff have same: "versions_of (db (onDidChange e n w)) (id_file f) = versions_of (db w) (id_file f)"
      by (simp add: eq)
    have "new_versions (db w) (db (onDidChange e n w)) (id_file f) = []"
      unfolding new_versions_def same by (auto simp: versions_of_def filter_empty_conv)
    with False same show ?thesis by (simp add: staged_with_history_def)
  qed
qed



text \<open>The specification's example: \<^verbatim>\<open>a.txt\<close> is staged and gets one new Version that starts
  with the marker for \<^verbatim>\<open>fix bug\<close>; \<^verbatim>\<open>c.txt\<close> is not staged and gets none.\<close>

theorem commit_annotates_staged_files_witness:
  "wf_store (db ex_world) \<and> \<not> isProcessingCommit ex_world \<and>
   (\<exists>v latest older.
      new_versions (db ex_world) (db (onDidChange ex_env ex_notification ex_world)) 1 = [v] \<and>
      getFileVersions (db ex_world) 1 None = latest # older \<and>
      content v = ''/* Git commit: fix bug */'' @ [newline] @ content latest) \<and>
   new_versions (db ex_world) (db (onDidChange ex_env ex_notification ex_world)) 3 = []"
proof -
  let ?a = "\<lparr>id_file = 1, file_path = ''a.txt'', current_version_id = Some 3\<rparr>"
  let ?c = "\<lparr>id_file = 3, file_path = ''c.txt'', current_version_id = Some 4\<rparr>"
  let ?chg = "[''/repo/a.txt'', ''/repo/b.txt'']"
  have h1: "wf_store (db ex_world)" using ex_store_wf by (simp add: ex_world_def)
  have h2: "\<not> isProcessingCommit ex_world" by (simp add: ex_world_def)
  have h3: "head_commit ex_notification = Some ''h2''" by (simp add: ex_notification_def)
  have h4: "''h2'' \<noteq> []" by simp
  have h5: "lastCommitByRepo ex_world (repoPath ex_notification) \<noteq> Some ''h2''"
    by (simp add: ex_world_def ex_notification_def)
  have h6: "indexChanges ex_notification = Some ?chg" by (simp add: ex_notification_def)
  have h7: "?chg \<noteq> []" by simp
  have h8: "getLatestCommitMessage ex_env \<noteq> []" by (simp add: ex_message)
  have fa: "?a \<in> set (file_rows (db ex_world))" by (simp add: ex_world_def ex_store_def)
  have fc: "?c \<in> set (file_rows (db ex_world))" by (simp add: ex_world_def ex_store_def)
  have a_staged: "normalize_path ex_env (file_path ?a) \<in> files (stagedSnapshot ex_env ?chg) \<and>
      versions_of (db ex_world) (id_file ?a) \<noteq> []"
    by (simp add: stagedSnapshot_def versions_of_def startsWith_def ex_defs)
  have c_not: "\<not> (normalize_path ex_env (file_path ?c) \<in> files (stagedSnapshot ex_env ?chg) \<and>
      versions_of (db ex_world) (id_file ?c) \<noteq> [])"
    by (simp add: stagedSnapshot_def startsWith_def ex_defs)
  from commit_annotates_staged_files[OF h1 h2 h3 h4 h5 h6 h7 h8 fa] a_staged
  have "\<exists>v latest older.
      new_versions (db ex_world) (db (onDidChange ex_env ex_notification ex_world)) (id_file ?a) = [v] \<and>
      getFileVersions (db ex_world) (id_file ?a) None = latest # older \<and>
      content v = ''/* Git commit: '' @ getLatestCommitMessage ex_env @ '' */'' @ [newline] @ content latest"
    by blast
  then have A: "\<exists>v latest older.
      new_versions (db ex_world) (db (onDidChange ex_env ex_notification ex_world)) 1 = [v] \<and>
      getFileVersions (db ex_world) 1 None = latest # older \<and>
      content v = ''/* Git commit: fix bug */'' @ [newline] @ content latest"
    by (simp add: ex_message)
  from commit_annotates_staged_files[OF h1 h2 h3 h4 h5 h6 h7 h8 fc] c_not
  have "new_versions (db ex_world) (db (onDidChange ex_env ex_notification ex_world)) (id_file ?c) = []"
    by blast
  then have C: "new_versions (db ex_world) (db (onDidChange ex_env ex_notification ex_world)) 3 = []"
    by simp
  from h1 h2 A C show ?thesis by blast
qed


text \<open>
  Claim C2. With the setting for clean-up after a commit enabled, after the commit pass
  every processed File (staged, with at least one Version before) has exactly one
  Version, the new annotated one; every Version the File had before is deleted.
\<close>

theorem cleanup_leaves_annotated_version:
  assumes "wf_store (db w)" "\<not> isProcessingCommit w"
    "head_commit n = Some c" "c \<noteq> []" "lastCommitByRepo w (repoPath n) \<noteq> Some c"
    "indexChanges n = Some chg" "chg \<noteq> []"
    "getLatestCommitMessage e \<noteq> []"
    "autoCleanupAfterCommit e"
    "f \<in> set (file_rows (db w))"
    "normalize_path e (file_path f) \<in> files (stagedSnapshot e chg)"
    "versions_of (db w) (id_file f) \<noteq> []"
  shows "\<exists>v latest older.
           getFileVersions (db (onDidChange e n w)) (id_file f) None = [v] \<and>
           v \<notin> set (version_rows (db w)) \<and>
           getFileVersions (db w) (id_file f) None = latest # older \<and>
           content v = ''/* Git commit: '' @ getLatestCommitMessage e @ '' */'' @ [newline] @ content latest \<and>
           (\<forall>u \<in> set (versions_of (db w) (id_file f)). u \<notin> set (version_rows (db (onDidChange e n w))))"
proof -
  let ?ch = "files (stagedSnapshot e chg)"
  let ?s' = "db (onDidChange e n w)"
  let ?i = "id_file f"
  have eq: "?s' = handleGitCommit e (db w) ?ch (Some (getLatestCommitMessage e))"
    using assms by (intro onDidChange_commit) auto
  have "staged_with_history e ?ch (db w) f"
    using assms(11,12) by (simp add: staged_with_history_def)
  with handleGitCommit_effect[OF assms(1) assms(8) assms(10), of ?ch]
  have "annotated (getLatestCommitMessage e) True (db w) ?s' ?i"
    using assms(9) by (simp add: eq)
  then obtain v latest older where
    h: "versions_of ?s' ?i = [v]"
       "seq_versions (db w) < id_version v"
       "getFileVersions (db w) ?i None = latest # older"
       "content v = commitMarker (getLatestCommitMessage e) (content latest)"
    unfolding annotated_def by auto
  have fresh: "v \<notin> set (version_rows (db w))" using assms(1) h(2) by (auto simp: wf_store_def)
  have one: "getFileVersions ?s' ?i None = [v]"
    using h(1) by (simp add: getFileVersions_def)
  have gone: "\<forall>u \<in> set (versions_of (db w) ?i). u \<notin> set (version_rows ?s')"
  proof
    fix u assume u: "u \<in> set (versions_of (db w) ?i)"
    show "u \<notin> set (version_rows ?s')"
    proof
      assume "u \<in> set (version_rows ?s')"
      with u have "u \<in> set (versions_of ?s' ?i)" by (simp add: versions_of_def)
      with h(1) have "u = v" by simp
      with u fresh show False by (simp add: versions_of_def)
    qed
  qed
  from one fresh h(3,4) gone show ?thesis
    by (auto simp: commitMarker_def)
qed


text \<open>The example with clean-up enabled: \<^verbatim>\<open>a.txt\<close> had two Versions and keeps only the
  annotated one.\<close>

theorem cleanup_leaves_annotated_version_witness:
  "autoCleanupAfterCommit (ex_env\<lparr>autoCleanupAfterCommit := True\<rparr>) \<and>
   (\<exists>v latest older.
      getFileVersions (db (onDidChange (ex_env\<lparr>autoCleanupAfterCommit := True\<rparr>) ex_notification ex_world)) 1 None = [v] \<and>
      v \<notin> set (version_rows (db ex_world)) \<and>
      getFileVersions (db ex_world) 1 None = latest # older \<and>
      content v = ''/* Git commit: fix bug */'' @ [newline] @ content latest \<and>
      (\<forall>u \<in> set (versions_of (db ex_world) 1).
          u \<notin> set (version_rows (db (onDidChange (ex_env\<lparr>autoCleanupAfterCommit := True\<rparr>) ex_notification ex_world)))))"
proof -
  let ?e = "ex_env\<lparr>autoCleanupAfterCommit := True\<rparr>"
  let ?a = "\<lparr>id_file = 1, file_path = ''a.txt'', current_version_id = Some 3\<rparr>"
  let ?chg = "[''/repo/a.txt'', ''/repo/b.txt'']"
  have msg: "getLatestCommitMessage ?e = ''fix bug''"
    using ex_message by (simp add: getLatestCommitMessage_def)
  have h1: "wf_store (db ex_world)" using ex_store_wf by (simp add: ex_world_def)
  have h2: "\<not> isProcessingCommit ex_world" by (simp add: ex_world_def)
  have h3: "head_commit ex_notification = Some ''h2''" by (simp add: ex_notification_def)
  have h4: "''h2'' \<noteq> []" by simp
  have h5: "lastCommitByRepo ex_world (repoPath ex_notification) \<noteq> Some ''h2''"
    by (simp add: ex_world_def ex_notification_def)
  have h6: "indexChanges ex_notification = Some ?chg" by (simp add: ex_notification_def)
  have h7: "?chg \<noteq> []" by simp
  have h8: "getLatestCommitMessage ?e \<noteq> []" by (simp add: msg)
  have h9: "autoCleanupAfterCommit ?e" by simp
  have fa: "?a \<in> set (file_rows (db ex_world))" by (simp add: ex_world_def ex_store_def)
  have st: "normalize_path ?e (file_path ?a) \<in> files (stagedSnapshot ?e ?chg)"
    by (simp add: stagedSnapshot_def startsWith_def ex_defs)
  have hist: "versions_of (db ex_world) (id_file ?a) \<noteq> []"
    by (simp add: versions_of_def ex_defs)
  from cleanup_leaves_annotated_version[OF h1 h2 h3 h4 h5 h6 h7 h8 h9 fa st hist] h9
  show ?thesis by (simp add: msg)
qed

section \<open>Properties of the repository watcher\<close>

lemma rest_clears: "\<not> isProcessingCommit (onDidChange_rest e n w)"
  by (simp add: onDidChange_rest_def Let_def split: option.splits)

lemma sync_guard: "\<not> isProcessingCommit w \<Longrightarrow> isProcessingCommit (fst (onDidChange_sync e n w)) = snd (onDidChange_sync e n w)"
  by (simp add: onDidChange_sync_def Let_def split: option.splits)

lemma full_clears: "\<not> isProcessingCommit w \<Longrightarrow> \<not> isProcessingCommit (onDidChange e n w)"
  using sync_guard[of w e n] rest_clears
  by (auto simp add: onDidChange_def split: prod.splits)

lemma same_head: "lastCommitByRepo w (repoPath n) = Some c \<Longrightarrow> head_commit n = Some c \<Longrightarrow>
   db (onDidChange e n w) = db w \<and> lastCommitByRepo (onDidChange e n w) = lastCommitByRepo w"
  by (simp add: onDidChange_def onDidChange_sync_def Let_def split: option.splits)

lemma same_head_all: "lastCommitByRepo w r = Some c \<Longrightarrow> \<forall>(e, n) \<in> set later. head_commit n = Some c \<and> repoPath n = r \<Longrightarrow>
   db (onDidChange_all later w) = db w \<and> lastCommitByRepo (onDidChange_all later w) = lastCommitByRepo w"
proof (induction later arbitrary: w)
  case Nil
  then show ?case by simp
next
  case (Cons a later)
  obtain e n where a: "a = (e, n)" by (cases a)
  from Cons.prems a have hn: "head_commit n = Some c" "repoPath n = r" by auto
  with Cons.prems(1) have step: "db (onDidChange e n w) = db w" "lastCommitByRepo (onDidChange e n w) = lastCommitByRepo w"
    using same_head[of w n c e] by auto
  from Cons.prems have "\<forall>(e, n) \<in> set later. head_commit n = Some c \<and> repoPath n = r" by auto
  moreover from step Cons.prems(1) have "lastCommitByRepo (onDidChange e n w) r = Some c" by simp
  ultimately have "db (onDidChange_all later (onDidChange e n w)) = db (onDidChange e n w) \<and>
     lastCommitByRepo (onDidChange_all later (onDidChange e n w)) = lastCommitByRepo (onDidChange e n w)"
    using Cons.IH by blast
  with step a show ?case by simp
qed

text \<open>
  Claim C3. A notification that arrives while \<^verbatim>\<open>isProcessingCommit\<close> is true is a complete
  no-op: the handler returns at once with the world as it found it, so it creates no
  Version and changes neither the last commit hash nor the staged set. Hence a round
  that is interrupted by such a notification while it waits for the commit message ends
  as if it had run alone: the commit is annotated once, not twice.
\<close>

theorem busy_notification_is_ignored:
  "(isProcessingCommit w \<longrightarrow> onDidChange_sync e' n' w = (w, False) \<and> onDidChange e' n' w = w) \<and>
   (snd (onDidChange_sync e n w) \<longrightarrow>
      onDidChange_rest e n (onDidChange e' n' (fst (onDidChange_sync e n w))) = onDidChange e n w)"
proof -
  have a: "onDidChange_sync e' n' v = (v, False) \<and> onDidChange e' n' v = v"
    if "isProcessingCommit v" for v
    using that by (simp add: onDidChange_def onDidChange_sync_def)
  have b: "isProcessingCommit (fst (onDidChange_sync e n w))" if "snd (onDidChange_sync e n w)"
    using that by (auto simp: onDidChange_sync_def Let_def split: option.splits if_splits)
  have c: "onDidChange e n w = onDidChange_rest e n (fst (onDidChange_sync e n w))"
    if "snd (onDidChange_sync e n w)"
    using that by (cases "onDidChange_sync e n w") (simp add: onDidChange_def)
  show ?thesis using a b c by simp
qed

text \<open>The example: while the handler of the notification for \<^verbatim>\<open>h2\<close> waits, a second
  notification arrives and changes nothing.\<close>

theorem busy_notification_is_ignored_witness:
  "isProcessingCommit ex_busy_world \<and>
   onDidChange ex_env (ex_notification\<lparr>indexChanges := Some []\<rparr>) ex_busy_world = ex_busy_world \<and>
   onDidChange_rest ex_env ex_notification
     (onDidChange ex_env (ex_notification\<lparr>indexChanges := Some []\<rparr>) ex_busy_world) =
   onDidChange ex_env ex_notification ex_world"
proof -
  have busy: "isProcessingCommit ex_busy_world"
    by (simp add: onDidChange_sync_def ex_defs)
  have susp: "snd (onDidChange_sync ex_env ex_notification ex_world)"
    by (simp add: onDidChange_sync_def ex_defs)
  from busy_notification_is_ignored[where w = ex_busy_world and e' = ex_env
      and n' = "ex_notification\<lparr>indexChanges := Some []\<rparr>"] busy
  have 1: "onDidChange ex_env (ex_notification\<lparr>indexChanges := Some []\<rparr>) ex_busy_world = ex_busy_world"
    by blast
  from busy_notification_is_ignored[where w = ex_world and e = ex_env and n = ex_notification
      and e' = ex_env and n' = "ex_notification\<lparr>indexChanges := Some []\<rparr>"] susp
  have "onDidChange_rest ex_env ex_notification
     (onDidChange ex_env (ex_notification\<lparr>indexChanges := Some []\<rparr>)
        (fst (onDidChange_sync ex_env ex_notification ex_world))) =
   onDidChange ex_env ex_notification ex_world"
    by blast
  then have 2: "onDidChange_rest ex_env ex_notification
     (onDidChange ex_env (ex_notification\<lparr>indexChanges := Some []\<rparr>) ex_busy_world) =
   onDidChange ex_env ex_notification ex_world"
    by (simp only: ex_busy_world_def)
  from busy 1 2 show ?thesis by blast
qed

text \<open>
  Claim C4 says that the flag is false after every completed invocation of the handler.
  An invocation that finds the flag set returns at once and leaves it set: the flag
  belongs to the round in flight.
\<close>

theorem ignored_notification_leaves_guard_set_counterexample:
  "isProcessingCommit (onDidChange ex_env ex_notification ex_busy_world)"
  by (simp add: onDidChange_def onDidChange_sync_def ex_defs)

text \<open>
  Claim C4, amended. After every completed invocation that found the flag clear when the
  notification arrived, the flag is clear, whether the invocation ended normally, stopped
  early or an error was thrown; and the part of the handler that runs once the commit
  message has arrived always ends with the flag clear, whatever the world it resumes in.
  So the flag never stays set once the round that set it has ended.
\<close>

theorem guard_released_after_round:
  "\<not> isProcessingCommit (onDidChange_rest e n w) \<and>
   (\<not> isProcessingCommit w \<longrightarrow> \<not> isProcessingCommit (onDidChange e n w))"
  using rest_clears[of e n w] full_clears[of w e n] by blast

text \<open>The example: a round that annotates, one in which reading the index throws, and one
  in which the \<^verbatim>\<open>git\<close> command fails.\<close>

theorem guard_released_after_round_witness:
  "\<not> isProcessingCommit ex_world \<and>
   \<not> isProcessingCommit (onDidChange ex_env ex_notification ex_world) \<and>
   \<not> isProcessingCommit (onDidChange ex_env (ex_notification\<lparr>indexChanges := None\<rparr>) ex_world) \<and>
   \<not> isProcessingCommit (onDidChange (ex_env\<lparr>gitLog := None\<rparr>) ex_notification ex_world)"
proof -
  have idle: "\<not> isProcessingCommit ex_world" by (simp add: ex_world_def)
  from guard_released_after_round[of ex_env ex_notification ex_world]
    guard_released_after_round[of ex_env "ex_notification\<lparr>indexChanges := None\<rparr>" ex_world]
    guard_released_after_round[of "ex_env\<lparr>gitLog := None\<rparr>" ex_notification ex_world] idle
  show ?thesis by blast
qed

text \<open>
  Claim C5 says that the handler overwrites the staged set on every notification that
  finds a HEAD commit, and that nothing else happens when the HEAD hash is the one of the
  previous notification. Neither holds for a notification that arrives while the flag is
  set. It is ignored, and the staged set stays as the round in flight recorded it. And
  since it is ignored, its HEAD hash is not recorded: when \<^verbatim>\<open>h3\<close> arrives during the round
  for \<^verbatim>\<open>h2\<close> and again after it, the second notification has the HEAD hash of the one
  before, and yet the last commit hash moves from \<^verbatim>\<open>h2\<close> to \<^verbatim>\<open>h3\<close> and the staged
  \<^verbatim>\<open>c.txt\<close> gets an annotated Version.
\<close>

theorem busy_notification_keeps_snapshot_counterexample:
  "head_commit (ex_notification\<lparr>indexChanges := Some [''/repo/c.txt'']\<rparr>) = Some ''h2'' \<and>
   stagedChangesMap
     (onDidChange ex_env (ex_notification\<lparr>indexChanges := Some [''/repo/c.txt'']\<rparr>) ex_busy_world)
     ''/repo'' \<noteq> Some (stagedSnapshot ex_env [''/repo/c.txt'']) \<and>
   onDidChange ex_env
     (ex_notification\<lparr>head_commit := Some ''h3'', indexChanges := Some [''/repo/c.txt'']\<rparr>)
     ex_busy_world = ex_busy_world \<and>
   lastCommitByRepo (onDidChange_rest ex_env ex_notification ex_busy_world) ''/repo'' = Some ''h2'' \<and>
   lastCommitByRepo
     (onDidChange ex_env
        (ex_notification\<lparr>head_commit := Some ''h3'', indexChanges := Some [''/repo/c.txt'']\<rparr>)
        (onDidChange_rest ex_env ex_notification ex_busy_world)) ''/repo'' = Some ''h3'' \<and>
   version_rows (db
     (onDidChange ex_env
        (ex_notification\<lparr>head_commit := Some ''h3'', indexChanges := Some [''/repo/c.txt'']\<rparr>)
        (onDidChange_rest ex_env ex_notification ex_busy_world))) =
   version_rows (db (onDidChange_rest ex_env ex_notification ex_busy_world)) @
     [\<lparr>id_version = 8, file_id = 3,
       content = ''/* Git commit: fix bug */'' @ [newline] @ ex_abc_old,
       timestamp = ''t2'', version_number = 2, label = None\<rparr>]"
  by (simp add: eval_defs ex_defs)

text \<open>
  Claim C5, amended. On every notification that is not ignored (the flag is clear), finds a
  HEAD commit and reads the index changes, the handler stores the staged paths, relative
  to the workspace and normalized, before it compares the HEAD hash with the last one
  seen: the entry is there when the synchronous part ends, whichever way the comparison
  goes. When the HEAD hash equals the last commit hash recorded for the repository,
  storing that entry is all the handler does: no Version is created or deleted and the
  last commit hash is unchanged.
\<close>

theorem snapshot_before_hash_check:
  assumes "\<not> isProcessingCommit w" "head_commit n = Some c" "c \<noteq> []" "indexChanges n = Some chg"
  shows "stagedChangesMap (fst (onDidChange_sync e n w)) (repoPath n) = Some (stagedSnapshot e chg) \<and>
         (lastCommitByRepo w (repoPath n) = Some c \<longrightarrow>
            onDidChange e n w =
              w\<lparr>stagedChangesMap := (stagedChangesMap w)(repoPath n \<mapsto> stagedSnapshot e chg)\<rparr>)"
  using assms
  by (simp add: onDidChange_def onDidChange_sync_def Let_def stagedSnapshot_def)

text \<open>The example: after the round for \<^verbatim>\<open>h2\<close> a notification with the same HEAD and
  \<^verbatim>\<open>c.txt\<close> in the index only records the new staged set.\<close>

theorem snapshot_before_hash_check_witness:
  "lastCommitByRepo (onDidChange ex_env ex_notification ex_world) ''/repo'' = Some ''h2'' \<and>
   stagedChangesMap (onDidChange ex_env ex_notification ex_world) ''/repo'' = None \<and>
   onDidChange ex_env (ex_notification\<lparr>indexChanges := Some [''/repo/c.txt'']\<rparr>)
       (onDidChange ex_env ex_notification ex_world) =
     (onDidChange ex_env ex_notification ex_world)
       \<lparr>stagedChangesMap :=
          (stagedChangesMap (onDidChange ex_env ex_notification ex_world))
            (''/repo'' \<mapsto> stagedSnapshot ex_env [''/repo/c.txt''])\<rparr>"
proof -
  let ?w = "onDidChange ex_env ex_notification ex_world"
  let ?n = "ex_notification\<lparr>indexChanges := Some [''/repo/c.txt'']\<rparr>"
  have msg: "getLatestCommitMessage ex_env \<noteq> []" by (simp add: ex_message)
  have h1: "\<not> isProcessingCommit ?w"
    using full_clears[of ex_world ex_env ex_notification] by (simp add: ex_world_def)
  have h2: "head_commit ?n = Some ''h2''" by (simp add: ex_notification_def)
  have h3: "''h2'' \<noteq> []" by simp
  have h4: "indexChanges ?n = Some [''/repo/c.txt'']" by simp
  have last: "lastCommitByRepo ?w ''/repo'' = Some ''h2''"
    using msg by (simp add: onDidChange_def onDidChange_sync_def onDidChange_rest_def
        ex_world_def ex_notification_def)
  have staged: "stagedChangesMap ?w ''/repo'' = None"
    using msg by (simp add: onDidChange_def onDidChange_sync_def onDidChange_rest_def
        ex_world_def ex_notification_def)
  have rp: "repoPath ?n = ''/repo''" by (simp add: ex_notification_def)
  from snapshot_before_hash_check[OF h1 h2 h3 h4, of ex_env] last rp
  have "onDidChange ex_env ?n ?w =
      ?w\<lparr>stagedChangesMap := (stagedChangesMap ?w)(''/repo'' \<mapsto> stagedSnapshot ex_env [''/repo/c.txt''])\<rparr>"
    by simp
  with last staged show ?thesis by blast
qed

text \<open>
  Claim C6. When a new commit hash is detected and the query for the commit message
  returns nothing (the command failed, or its output is empty after trimming), the round
  ends with the database unchanged, so no Version is created or deleted; the flag is
  clear; and the staged set recorded by this notification is still in the map.
\<close>

theorem empty_message_aborts_round:
  assumes "\<not> isProcessingCommit w" "head_commit n = Some c" "c \<noteq> []" "indexChanges n = Some chg"
    "lastCommitByRepo w (repoPath n) \<noteq> Some c" "getLatestCommitMessage e = []"
  shows "db (onDidChange e n w) = db w \<and>
         \<not> isProcessingCommit (onDidChange e n w) \<and>
         stagedChangesMap (onDidChange e n w) (repoPath n) = Some (stagedSnapshot e chg)"
  using assms
  by (simp add: onDidChange_def onDidChange_sync_def onDidChange_rest_def Let_def stagedSnapshot_def)

text \<open>The example: the command prints an empty line.\<close>

theorem empty_message_aborts_round_witness:
  "getLatestCommitMessage (ex_env\<lparr>gitLog := Some [newline]\<rparr>) = [] \<and>
   db (onDidChange (ex_env\<lparr>gitLog := Some [newline]\<rparr>) ex_notification ex_world) = db ex_world \<and>
   \<not> isProcessingCommit (onDidChange (ex_env\<lparr>gitLog := Some [newline]\<rparr>) ex_notification ex_world) \<and>
   stagedChangesMap (onDidChange (ex_env\<lparr>gitLog := Some [newline]\<rparr>) ex_notification ex_world) ''/repo'' =
     Some \<lparr>files = {''a.txt'', ''b.txt''}, message = []\<rparr>"
proof -
  let ?e = "ex_env\<lparr>gitLog := Some [newline]\<rparr>"
  have h1: "\<not> isProcessingCommit ex_world" by (simp add: ex_world_def)
  have h2: "head_commit ex_notification = Some ''h2''" by (simp add: ex_notification_def)
  have h3: "''h2'' \<noteq> []" by simp
  have h4: "indexChanges ex_notification = Some [''/repo/a.txt'', ''/repo/b.txt'']"
    by (simp add: ex_notification_def)
  have h5: "lastCommitByRepo ex_world (repoPath ex_notification) \<noteq> Some ''h2''"
    by (simp add: ex_world_def ex_notification_def)
  have h6: "getLatestCommitMessage ?e = []"
    by (simp add: getLatestCommitMessage_def trim_def isWhiteSpace_def newline_def)
  have snap: "stagedSnapshot ?e [''/repo/a.txt'', ''/repo/b.txt''] =
      \<lparr>files = {''a.txt'', ''b.txt''}, message = []\<rparr>"
    by (simp add: stagedSnapshot_def startsWith_def ex_env_def)
  have rp: "repoPath ex_notification = ''/repo''" by (simp add: ex_notification_def)
  from empty_message_aborts_round[OF h1 h2 h3 h4 h5 h6] h6 snap rp
  show ?thesis by simp
qed

text \<open>
  Claim C9 says that once a round has ended on an empty commit message, no later
  notification with the same HEAD hash ever creates an annotated Version. The handler
  keeps only the last HEAD hash it has seen for the repository. In the example the round
  for \<^verbatim>\<open>h2\<close> ends on a failed \<^verbatim>\<open>git\<close> command; a notification with HEAD \<^verbatim>\<open>h3\<close> and an
  empty index follows and changes no Version; then HEAD is \<^verbatim>\<open>h2\<close> again, with \<^verbatim>\<open>a.txt\<close>
  and \<^verbatim>\<open>b.txt\<close> staged, and both get an annotated Version.
\<close>

theorem other_head_in_between_counterexample:
  "getLatestCommitMessage (ex_env\<lparr>gitLog := None\<rparr>) = [] \<and>
   db (onDidChange (ex_env\<lparr>gitLog := None\<rparr>) ex_notification ex_world) = ex_store \<and>
   lastCommitByRepo (onDidChange (ex_env\<lparr>gitLog := None\<rparr>) ex_notification ex_world) ''/repo'' =
     Some ''h2'' \<and>
   db (onDidChange ex_env (ex_notification\<lparr>head_commit := Some ''h3'', indexChanges := Some []\<rparr>)
         (onDidChange (ex_env\<lparr>gitLog := None\<rparr>) ex_notification ex_world)) = ex_store \<and>
   head_commit ex_notification = Some ''h2'' \<and>
   version_rows (db
     (onDidChange ex_env ex_notification
        (onDidChange ex_env (ex_notification\<lparr>head_commit := Some ''h3'', indexChanges := Some []\<rparr>)
           (onDidChange (ex_env\<lparr>gitLog := None\<rparr>) ex_notification ex_world)))) =
   version_rows ex_store @
     [\<lparr>id_version = 6, file_id = 1, content = ''/* Git commit: fix bug */'' @ [newline] @ ''a2'',
       timestamp = ''t2'', version_number = 3, label = None\<rparr>,
      \<lparr>id_version = 7, file_id = 2, content = ''/* Git commit: fix bug */'' @ [newline] @ ''b1'',
       timestamp = ''t2'', version_number = 2, label = None\<rparr>]"
  by (simp add: eval_defs ex_defs)

text \<open>
  Claim C9, amended. When a new commit hash is detected and the round ends because the
  commit message is empty, the last commit hash has already been set to the new HEAD
  hash, both when the handler suspends and when it ends. Hence, as long as no other HEAD
  hash is processed in between, that is, as long as every notification that follows for
  this repository has the same HEAD hash, none of them creates a Version, whatever commit
  message and staged files they find: the staged set that was kept is not used for this
  commit.
\<close>

theorem aborted_commit_is_never_annotated:
  assumes "\<not> isProcessingCommit w" "head_commit n = Some c" "c \<noteq> []" "indexChanges n = Some chg"
    "lastCommitByRepo w (repoPath n) \<noteq> Some c" "getLatestCommitMessage e = []"
    "\<forall>(e', n') \<in> set later. head_commit n' = Some c \<and> repoPath n' = repoPath n"
  shows "lastCommitByRepo (fst (onDidChange_sync e n w)) (repoPath n) = Some c \<and>
         lastCommitByRepo (onDidChange e n w) (repoPath n) = Some c \<and>
         db (onDidChange_all later (onDidChange e n w)) = db w"
proof -
  have s: "lastCommitByRepo (fst (onDidChange_sync e n w)) (repoPath n) = Some c"
    using assms(1-5) by (simp add: onDidChange_sync_def Let_def)
  have l: "lastCommitByRepo (onDidChange e n w) (repoPath n) = Some c"
    and d: "db (onDidChange e n w) = db w"
    using assms(1-6)
    by (simp_all add: onDidChange_def onDidChange_sync_def onDidChange_rest_def Let_def)
  from same_head_all[OF l assms(7)] d s l show ?thesis by simp
qed

text \<open>The example: the command fails on the first notification; on the two that follow,
  with the same HEAD, the message \<^verbatim>\<open>fix bug\<close> is available and two files are staged, and
  yet the database stays as it was.\<close>

theorem aborted_commit_is_never_annotated_witness:
  "getLatestCommitMessage (ex_env\<lparr>gitLog := None\<rparr>) = [] \<and>
   getLatestCommitMessage ex_env = ''fix bug'' \<and>
   lastCommitByRepo (onDidChange (ex_env\<lparr>gitLog := None\<rparr>) ex_notification ex_world) ''/repo'' = Some ''h2'' \<and>
   db (onDidChange_all [(ex_env, ex_notification), (ex_env, ex_notification)]
         (onDidChange (ex_env\<lparr>gitLog := None\<rparr>) ex_notification ex_world)) = db ex_world"
proof -
  let ?e = "ex_env\<lparr>gitLog := None\<rparr>"
  have h1: "\<not> isProcessingCommit ex_world" by (simp add: ex_world_def)
  have h2: "head_commit ex_notification = Some ''h2''" by (simp add: ex_notification_def)
  have h3: "''h2'' \<noteq> []" by simp
  have h4: "indexChanges ex_notification = Some [''/repo/a.txt'', ''/repo/b.txt'']"
    by (simp add: ex_notification_def)
  have h5: "lastCommitByRepo ex_world (repoPath ex_notification) \<noteq> Some ''h2''"
    by (simp add: ex_world_def ex_notification_def)
  have h6: "getLatestCommitMessage ?e = []"
    by (simp add: getLatestCommitMessage_def)
  have h7: "\<forall>(e', n') \<in> set [(ex_env, ex_notification), (ex_env, ex_notification)].
      head_commit n' = Some ''h2'' \<and> repoPath n' = repoPath ex_notification"
    by (simp add: ex_notification_def)
  have rp: "repoPath ex_notification = ''/repo''" by (simp add: ex_notification_def)
  from aborted_commit_is_never_annotated[OF h1 h2 h3 h4 h5 h6 h7] h6 ex_message rp
  show ?thesis by simp
qed

section \<open>Properties of the save handler\<close>

text \<open>With a latest Version whose content differs from the text, the handler skips the save
  exactly when not every change is to be saved and \<open>changes\<close> has at most two lines.\<close>

lemma save_filter_with_history:
  assumes "getFile s (asRelativePath e uri) = Some f"
    "getFileVersions s (id_file f) (Some 1) = latest # older" "content latest \<noteq> text"
  shows "onWillSaveTextDocument e uri text s =
           (if \<not> saveAllChanges e \<and>
               length (changes (createPatch e ''file'' (content latest) text)) \<le> 2
            then s
            else case createVersion (now e) s (id_file f) text None of
                   Inl err \<Rightarrow> s
                 | Inr (v, s2) \<Rightarrow> s2)"
  using assms by (simp add: save_existing_file)

lemma single_changed_line_example:
  "changes (createPatch ex_env ''file'' ex_abc_old ex_abc_new) = [''-b'', ''+x''] \<and>
   onWillSaveTextDocument ex_env ''/repo/c.txt'' ex_abc_new ex_store = ex_store \<and>
   version_rows (onWillSaveTextDocument (ex_env\<lparr>saveAllChanges := True\<rparr>) ''/repo/c.txt''
       ex_abc_new ex_store) =
     version_rows ex_store @
       [\<lparr>id_version = 6, file_id = 3, content = ex_abc_new, timestamp = ''t2'',
         version_number = 2, label = None\<rparr>]"
  by (simp add: onWillSaveTextDocument_def getFile_def getFileVersions_def versions_of_def
      createVersion_def getFileById_def startsWith_def changes_def split_def Let_def ex_defs)

text \<open>Whatever the patch, no line that starts with \<^verbatim>\<open>+++\<close> or \<^verbatim>\<open>---\<close> is counted, be it a
  header line or a changed line.\<close>

lemma changes_excludes_prefixed_lines:
  "line \<in> set (changes patch) \<Longrightarrow> \<not> startsWith line ''+++'' \<and> \<not> startsWith line ''---''"
  by (simp add: changes_def)

text \<open>
  Claim C7. The claim counts the lines of the patch marked as added or removed, without
  the two header lines, and has the save skipped only if that count is at most 2. The
  handler drops every line that starts with \<^verbatim>\<open>+++\<close> or \<^verbatim>\<open>---\<close>, which are the header lines
  and also every added line whose text starts with \<^verbatim>\<open>++\<close> and every removed line whose
  text starts with \<^verbatim>\<open>--\<close>. In the example three comment lines \<^verbatim>\<open>--a\<close>, \<^verbatim>\<open>--b\<close>, \<^verbatim>\<open>--c\<close> are
  removed from \<^verbatim>\<open>q.sql\<close>: the patch marks three lines as removed, the handler counts none
  and skips the save.
\<close>

theorem prefix_filter_drops_changed_lines:
  "\<not> saveAllChanges ex_env \<and>
   getFile ex_store ''q.sql'' =
     Some \<lparr>id_file = 4, file_path = ''q.sql'', current_version_id = Some 5\<rparr> \<and>
   map content (getFileVersions ex_store 4 (Some 1)) = [ex_sql_old] \<and>
   ex_sql_old \<noteq> ex_sql_new \<and>
   changedLines_spec (createPatch ex_env ''file'' ex_sql_old ex_sql_new) =
     [''---a'', ''---b'', ''---c''] \<and>
   changes (createPatch ex_env ''file'' ex_sql_old ex_sql_new) = [] \<and>
   onWillSaveTextDocument ex_env ''/repo/q.sql'' ex_sql_new ex_store = ex_store"
  by (simp add: onWillSaveTextDocument_def getFile_def getFileVersions_def versions_of_def
      changedLines_spec_def startsWith_def changes_def split_def ex_defs)

text \<open>
  Claim C8 says that no File row exists for a path after a first save that the filter
  rejects. The handler creates the File before it consults the filter.
\<close>

theorem rejected_first_save_creates_file_counterexample:
  "getFile ex_store ''new.txt'' = None \<and> \<not> saveAllChanges ex_env \<and>
   length (split ''x'' newline) \<le> 1 \<and>
   version_rows (onWillSaveTextDocument ex_env ''/repo/new.txt'' ''x'' ex_store) =
     version_rows ex_store \<and>
   getFile (onWillSaveTextDocument ex_env ''/repo/new.txt'' ''x'' ex_store) ''new.txt'' =
     Some \<lparr>id_file = 5, file_path = ''new.txt'', current_version_id = None\<rparr>"
  by (simp add: onWillSaveTextDocument_def getFile_def createFile_def getFileVersions_def
      versions_of_def startsWith_def split_def Let_def ex_defs)

text \<open>
  Claim C8, amended. A File row is created on the first save the handler observes for a
  path, before the filter runs: for every save of a path with no File, a File for that
  path exists when the handler has completed, whatever the text and the setting. When the
  filter rejects the text (a single line, not every change saved), the new File, with no
  current Version, is the only change to the database.
\<close>

theorem file_row_created_on_first_save:
  assumes "getFile s (asRelativePath e uri) = None"
  shows "(\<exists>f. getFile (onWillSaveTextDocument e uri text s) (asRelativePath e uri) = Some f \<and>
              id_file f = Suc (seq_files s)) \<and>
         (wf_store s \<and> \<not> saveAllChanges e \<and> length (split text newline) \<le> 1 \<longrightarrow>
            onWillSaveTextDocument e uri text s =
              s\<lparr>file_rows := file_rows s @
                   [\<lparr>id_file = Suc (seq_files s), file_path = asRelativePath e uri,
                     current_version_id = None\<rparr>],
                seq_files := Suc (seq_files s)\<rparr>)"
  using save_new_file_exists[OF assms] save_new_file_rejected[OF _ assms] by blast

text \<open>The example: the first save of \<^verbatim>\<open>new.txt\<close> with the single line \<^verbatim>\<open>x\<close>.\<close>

theorem file_row_created_on_first_save_witness:
  "getFile ex_store ''new.txt'' = None \<and> wf_store ex_store \<and>
   (\<exists>f. getFile (onWillSaveTextDocument ex_env ''/repo/new.txt'' ''x'' ex_store) ''new.txt'' = Some f \<and>
        id_file f = 5) \<and>
   onWillSaveTextDocument ex_env ''/repo/new.txt'' ''x'' ex_store =
     ex_store\<lparr>file_rows := file_rows ex_store @
                 [\<lparr>id_file = 5, file_path = ''new.txt'', current_version_id = None\<rparr>],
              seq_files := 5\<rparr>"
proof -
  have p: "asRelativePath ex_env ''/repo/new.txt'' = ''new.txt''"
    by (simp add: ex_env_def startsWith_def)
  have h: "getFile ex_store (asRelativePath ex_env ''/repo/new.txt'') = None"
    by (simp add: p) (simp add: getFile_def ex_store_def)
  have rej: "wf_store ex_store \<and> \<not> saveAllChanges ex_env \<and> length (split ''x'' newline) \<le> 1"
    using ex_store_wf by (simp add: ex_env_def split_def newline_def)
  have seq: "Suc (seq_files ex_store) = 5" by (simp add: ex_store_def)
  from file_row_created_on_first_save[OF h, of "''x''"] rej
  have "(\<exists>f. getFile (onWillSaveTextDocument ex_env ''/repo/new.txt'' ''x'' ex_store)
               (asRelativePath ex_env ''/repo/new.txt'') = Some f \<and>
              id_file f = Suc (seq_files ex_store)) \<and>
        onWillSaveTextDocument ex_env ''/repo/new.txt'' ''x'' ex_store =
              ex_store\<lparr>file_rows := file_rows ex_store @
                   [\<lparr>id_file = Suc (seq_files ex_store),
                     file_path = asRelativePath ex_env ''/repo/new.txt'',
                     current_version_id = None\<rparr>],
                seq_files := Suc (seq_files ex_store)\<rparr>"
    by blast
  then have "(\<exists>f. getFile (onWillSaveTextDocument ex_env ''/repo/new.txt'' ''x'' ex_store) ''new.txt'' = Some f \<and>
        id_file f = 5) \<and>
   onWillSaveTextDocument ex_env ''/repo/new.txt'' ''x'' ex_store =
     ex_store\<lparr>file_rows := file_rows ex_store @
                 [\<lparr>id_file = 5, file_path = ''new.txt'', current_version_id = None\<rparr>],
              seq_files := 5\<rparr>"
    unfolding p seq .
  moreover have "getFile ex_store ''new.txt'' = None" using h unfolding p .
  ultimately show ?thesis using ex_store_wf by blast
qed

text \<open>
  Claim C10. When the File has no Version yet and not every change is to be saved, the
  handler splits the text on line feeds and skips the save only if there is at most one
  piece, that is, only if the text has no line feed: a text with at least one line feed
  is persisted as a new Version of the File (also a single line ended by a line feed),
  and a text with none creates no Version.
\<close>

theorem first_save_rule:
  assumes wf: "wf_store s" and nsa: "\<not> saveAllChanges e"
    and noprior: "\<forall>f. getFile s (asRelativePath e uri) = Some f \<longrightarrow> versions_of s (id_file f) = []"
  shows "(newline \<notin> set text \<longrightarrow>
            version_rows (onWillSaveTextDocument e uri text s) = version_rows s) \<and>
         (newline \<in> set text \<longrightarrow>
            (\<exists>f v. getFile (onWillSaveTextDocument e uri text s) (asRelativePath e uri) = Some f \<and>
                   version_rows (onWillSaveTextDocument e uri text s) = version_rows s @ [v] \<and>
                   file_id v = id_file f \<and> content v = text))"
proof (cases "getFile s (asRelativePath e uri)")
  case None
  let ?p = "asRelativePath e uri"
  let ?f = "\<lparr>id_file = Suc (seq_files s), file_path = ?p, current_version_id = None\<rparr>"
  let ?s1 = "s\<lparr>file_rows := file_rows s @ [?f], seq_files := Suc (seq_files s)\<rparr>"
  have nov: "getFileVersions ?s1 (Suc (seq_files s)) (Some 1) = []"
    using versions_of_fresh[OF wf] by (simp add: getFileVersions_Nil versions_of_def)
  have g1: "getFile ?s1 ?p = Some ?f"
    using None by (simp add: getFile_def find_append)
  have "getFileById ?s1 (Suc (seq_files s)) \<noteq> None"
    by (simp add: getFileById_def find_append split: option.splits)
  then obtain v s2 where cv: "createVersion (now e) ?s1 (Suc (seq_files s)) text None = Inr (v, s2)"
    using createVersion_ok by blast
  from getFile_after_createVersion[OF cv g1]
  obtain f' where g2: "getFile s2 ?p = Some f'" "id_file f' = Suc (seq_files s)" by auto
  have res: "onWillSaveTextDocument e uri text s = (if newline \<notin> set text then ?s1 else s2)"
    using None nov cv nsa
    by (simp add: onWillSaveTextDocument_def Let_def getFile_createFile split_single)
  show ?thesis
    using res g2 createVersion_Inr(1-3)[OF cv] by auto
next
  case (Some f)
  with noprior have nov: "getFileVersions s (id_file f) (Some 1) = []"
    by (simp add: getFileVersions_Nil)
  from Some have "getFileById s (id_file f) \<noteq> None"
    using getFile_Some getFileById_in by blast
  then obtain v s2 where cv: "createVersion (now e) s (id_file f) text None = Inr (v, s2)"
    using createVersion_ok by blast
  from getFile_after_createVersion[OF cv Some]
  obtain f' where g2: "getFile s2 (asRelativePath e uri) = Some f'" "id_file f' = id_file f" by auto
  have res: "onWillSaveTextDocument e uri text s = (if newline \<notin> set text then s else s2)"
    using nov cv nsa by (simp add: save_existing_file[OF Some] split_single)
  show ?thesis
    using res g2 createVersion_Inr(1-3)[OF cv] by auto
qed

text \<open>The example: \<^verbatim>\<open>x\<close> followed by a line feed splits into two pieces and is persisted;
  \<^verbatim>\<open>x\<close> alone is not.\<close>

theorem first_save_rule_witness:
  "getFile ex_store ''new.txt'' = None \<and>
   length (split (''x'' @ [newline]) newline) = 2 \<and>
   (\<exists>f v. getFile (onWillSaveTextDocument ex_env ''/repo/new.txt'' (''x'' @ [newline]) ex_store)
            ''new.txt'' = Some f \<and>
          version_rows (onWillSaveTextDocument ex_env ''/repo/new.txt'' (''x'' @ [newline]) ex_store) =
            version_rows ex_store @ [v] \<and>
          file_id v = id_file f \<and> content v = ''x'' @ [newline]) \<and>
   version_rows (onWillSaveTextDocument ex_env ''/repo/new.txt'' ''x'' ex_store) =
     version_rows ex_store"
proof -
  have p: "asRelativePath ex_env ''/repo/new.txt'' = ''new.txt''"
    by (simp add: ex_env_def startsWith_def)
  have nofile: "getFile ex_store ''new.txt'' = None"
    by (simp add: getFile_def ex_store_def)
  have h2: "\<not> saveAllChanges ex_env" by (simp add: ex_env_def)
  have h3: "\<forall>f. getFile ex_store (asRelativePath ex_env ''/repo/new.txt'') = Some f \<longrightarrow>
              versions_of ex_store (id_file f) = []"
    by (simp add: p nofile)
  have nl: "newline \<in> set (''x'' @ [newline])" by simp
  have nonl: "newline \<notin> set ''x''" by (simp add: newline_def)
  have len: "length (split (''x'' @ [newline]) newline) = 2"
    by (simp add: split_def newline_def)
  from first_save_rule[OF ex_store_wf h2 h3, of "''x'' @ [newline]"] nl
  have A: "\<exists>f v. getFile (onWillSaveTextDocument ex_env ''/repo/new.txt'' (''x'' @ [newline]) ex_store)
            ''new.txt'' = Some f \<and>
          version_rows (onWillSaveTextDocument ex_env ''/repo/new.txt'' (''x'' @ [newline]) ex_store) =
            version_rows ex_store @ [v] \<and>
          file_id v = id_file f \<and> content v = ''x'' @ [newline]"
    unfolding p by blast
  from first_save_rule[OF ex_store_wf h2 h3, of "''x''"] nonl
  have B: "version_rows (onWillSaveTextDocument ex_env ''/repo/new.txt'' ''x'' ex_store) =
     version_rows ex_store"
    by blast
  from nofile len A B show ?thesis by blast
qed

end
